theory Spec2Isabelle
  imports Main "HOL-Library.Word"
begin

unbundle bit_operations_syntax

section \<open>Data model\<close>

text \<open>
  The engine of the Nim game: class \<open>Pile\<close> (Pile.js) and class \<open>NimGame\<close>
  (NimGame.js). JavaScript numbers that hold pile counts, amounts and indices are
  modelled as \<open>int\<close>. The engine compares, adds and subtracts them; comparison is
  exact, and \<open>+\<close> and \<open>-\<close> round their result as IEEE 754 doubles do (\<open>js_add\<close>,
  \<open>js_sub\<close> below), which changes nothing below \<open>2 ^ 53\<close>. The bitwise operator \<open>^\<close>
  of JavaScript converts both operands to signed 32-bit integers (ToInt32) and is
  modelled on \<open>32 word\<close>.
  The player strings \<open>'user'\<close> and \<open>'computer'\<close> are a datatype, \<open>null\<close> is
  \<open>None\<close>, and the TypeError that JavaScript raises on a property access of
  \<open>undefined\<close> is the value \<open>Inl TypeError\<close>. Every operation that mutates the
  game returns the new game next to its result; after a TypeError the game is the one
  reached when the exception was raised.
\<close>

datatype player = User | Computer

datatype fault = TypeError

record pile =
  count :: int
  id_p :: int

record move =
  pileIndex :: int
  amount :: int

record config =
  pileCounts :: "int list"
  startingPlayer :: player

record game =
  piles :: "pile list"
  currentPlayer :: player
  gameOver :: bool
  winner :: "player option"
  initialConfig :: config

section \<open>JavaScript numbers\<close>

text \<open>
  A JavaScript number is an IEEE 754 double: 53 significant bits. The sum or difference
  of two integers is the exact result rounded to the nearest double, ties to the even
  significand. For an integer \<open>x\<close> with \<open>2 ^ (52 + e) \<le> \<bar>x\<bar> < 2 ^ (53 + e)\<close> the doubles
  around it are the multiples of \<open>2 ^ e\<close>; \<open>ulp_exp \<bar>x\<bar>\<close> is that \<open>e\<close>, and \<open>0\<close> below
  \<open>2 ^ 53\<close>, where every integer is a double. An integer that is not a double, such
  as \<open>2 ^ 53 + 1\<close>, is a value of \<open>int\<close> that no JavaScript number takes. A result of
  magnitude \<open>2 ^ 1024\<close> or more, which JavaScript turns into \<open>Infinity\<close>, stays
  finite here; only the sum in \<open>checkGameOver\<close> can get that large, and it is only
  tested for \<open>=== 0\<close>, which comes out the same.
\<close>

function ulp_exp :: "int \<Rightarrow> nat" where
  "ulp_exp n = (if n < 2 ^ 53 then 0 else Suc (ulp_exp (n div 2)))"
  by pat_completeness auto
termination
  by (relation "measure (\<lambda>n. nat n)") auto

declare ulp_exp.simps [simp del]

definition round_to_double :: "int \<Rightarrow> int" where
  "round_to_double x =
     (let u = 2 ^ ulp_exp \<bar>x\<bar>; q = x div u; r = x mod u
      in if 2 * r < u then q * u
         else if u < 2 * r then (q + 1) * u
         else if even q then q * u else (q + 1) * u)"

definition js_add :: "int \<Rightarrow> int \<Rightarrow> int" where
  "js_add a b = round_to_double (a + b)"

definition js_sub :: "int \<Rightarrow> int \<Rightarrow> int" where
  "js_sub a b = round_to_double (a - b)"

section \<open>Pile\<close>

text \<open>\<open>new Pile(initialCount, id)\<close>.\<close>

definition Pile :: "int \<Rightarrow> int \<Rightarrow> pile" where
  "Pile initialCount i = \<lparr>count = initialCount, id_p = i\<rparr>"

text \<open>
  \<open>Pile.removeItems\<close>: the boolean result and the pile after the call. The message on
  \<open>console.error\<close> is diagnostic output only and is not modelled.
\<close>

definition removeItems :: "int \<Rightarrow> pile \<Rightarrow> bool \<times> pile" where
  "removeItems amt p =
     (if amt > 0 \<and> amt \<le> count p then (True, p\<lparr>count := js_sub (count p) amt\<rparr>)
      else (False, p))"

definition isEmpty :: "pile \<Rightarrow> bool" where
  "isEmpty p = (count p = 0)"

definition reset_pile :: "int \<Rightarrow> pile \<Rightarrow> pile" where
  "reset_pile newCount p = p\<lparr>count := newCount\<rparr>"

section \<open>NimGame\<close>

text \<open>\<open>pileCounts.map((count, index) => new Pile(count, index))\<close>.\<close>

definition mkPiles :: "int list \<Rightarrow> pile list" where
  "mkPiles cs = map (\<lambda>(index, c). Pile c (int index)) (enumerate 0 cs)"

text \<open>
  The constructor; an omitted argument (\<open>None\<close>) takes the default \<open>[3, 4, 5]\<close> or
  \<open>'user'\<close>.
\<close>

definition NimGame :: "int list option \<Rightarrow> player option \<Rightarrow> game" where
  "NimGame pcs sp =
     (let pcs' = (case pcs of None \<Rightarrow> [3, 4, 5] | Some cs \<Rightarrow> cs);
          sp' = (case sp of None \<Rightarrow> User | Some q \<Rightarrow> q)
      in \<lparr>piles = mkPiles pcs', currentPlayer = sp', gameOver = False, winner = None,
          initialConfig = \<lparr>pileCounts = pcs', startingPlayer = sp'\<rparr>\<rparr>)"

text \<open>ToInt32 and the operator \<open>^\<close> of JavaScript.\<close>

definition toInt32 :: "int \<Rightarrow> int" where
  "toInt32 x = sint (word_of_int x :: 32 word)"

definition js_xor :: "int \<Rightarrow> int \<Rightarrow> int" where
  "js_xor a b = sint ((word_of_int a :: 32 word) XOR word_of_int b)"

text \<open>\<open>this.piles.reduce((acc, pile) => acc + pile.count, 0)\<close> and \<open>checkGameOver\<close>.\<close>

definition totalItems :: "pile list \<Rightarrow> int" where
  "totalItems ps = foldl (\<lambda>acc p. js_add acc (count p)) 0 ps"

definition checkGameOver :: "game \<Rightarrow> game" where
  "checkGameOver g =
     (if totalItems (piles g) = 0
      then g\<lparr>gameOver := True, winner := Some (currentPlayer g)\<rparr>
      else g)"

text \<open>
  \<open>userMove\<close>. \<open>this.piles[pileIndex]\<close> is \<open>undefined\<close> when the index is not one of
  \<open>0 .. length - 1\<close>, and the call of \<open>removeItems\<close> on it raises a TypeError.
\<close>

definition userMove :: "int \<Rightarrow> int \<Rightarrow> game \<Rightarrow> (fault + bool) \<times> game" where
  "userMove pIdx amt g =
     (if currentPlayer g \<noteq> User \<or> gameOver g then (Inr False, g)
      else if pIdx < 0 \<or> int (length (piles g)) \<le> pIdx then (Inl TypeError, g)
      else
        let (success, p') = removeItems amt (piles g ! nat pIdx);
            g1 = g\<lparr>piles := (piles g)[nat pIdx := p']\<rparr>
        in if success then
             let g2 = checkGameOver g1
             in (Inr True, if \<not> gameOver g2 then g2\<lparr>currentPlayer := Computer\<rparr> else g2)
           else (Inr False, g1))"

text \<open>\<open>this.piles.reduce((acc, pile) => acc ^ pile.count, 0)\<close>.\<close>

definition nimSum :: "pile list \<Rightarrow> int" where
  "nimSum ps = foldl (\<lambda>acc p. js_xor acc (count p)) 0 ps"

text \<open>The \<open>for\<close> loop of \<open>calculateBestMove\<close>, from index \<open>i\<close> on.\<close>

function scanPiles :: "pile list \<Rightarrow> int \<Rightarrow> nat \<Rightarrow> move option" where
  "scanPiles ps ns i =
     (if i < length ps then
        let targetCount = js_xor (count (ps ! i)) ns
        in if targetCount < count (ps ! i)
           then Some \<lparr>pileIndex = int i, amount = js_sub (count (ps ! i)) targetCount\<rparr>
           else scanPiles ps ns (i + 1)
      else None)"
  by pat_completeness auto
termination
  by (relation "measure (\<lambda>(ps, ns, i). length ps - i)") auto

declare scanPiles.simps [simp del]

text \<open>
  \<open>calculateBestMove\<close>. It assigns to no field, so the game comes back as it went in.
  \<open>find\<close> returns \<open>undefined\<close> when no pile has a positive count, and reading
  \<open>firstPile.id\<close> then raises a TypeError.
\<close>

definition calculateBestMove :: "game \<Rightarrow> (fault + move option) \<times> game" where
  "calculateBestMove g =
     (let ns = nimSum (piles g)
      in if ns = 0 then
           (case find (\<lambda>p. count p > 0) (piles g) of
              None \<Rightarrow> (Inl TypeError, g)
            | Some firstPile \<Rightarrow> (Inr (Some \<lparr>pileIndex = id_p firstPile, amount = 1\<rparr>), g))
         else (Inr (scanPiles (piles g) ns 0), g))"

text \<open>
  \<open>makeAIMove\<close>. The result of \<open>removeItems\<close> is not looked at; the pile is whatever
  \<open>removeItems\<close> left.
\<close>

definition makeAIMove :: "game \<Rightarrow> (fault + move option) \<times> game" where
  "makeAIMove g =
     (if currentPlayer g \<noteq> Computer \<or> gameOver g then (Inr None, g)
      else
        case calculateBestMove g of
          (Inl e, g0) \<Rightarrow> (Inl e, g0)
        | (Inr None, g0) \<Rightarrow> (Inr None, g0)
        | (Inr (Some m), g0) \<Rightarrow>
            if pileIndex m < 0 \<or> int (length (piles g0)) \<le> pileIndex m
            then (Inl TypeError, g0)
            else
              let (success, p') = removeItems (amount m) (piles g0 ! nat (pileIndex m));
                  g1 = g0\<lparr>piles := (piles g0)[nat (pileIndex m) := p']\<rparr>;
                  g2 = checkGameOver g1
              in (Inr (Some m), if \<not> gameOver g2 then g2\<lparr>currentPlayer := User\<rparr> else g2))"

text \<open>
  \<open>reset\<close>; an omitted argument (\<open>None\<close>) takes its value from \<open>initialConfig\<close>.
  The engine never writes to the array of pile sizes it stores, and every pile is a new
  object holding a copy of its count, so the stored sizes are a list value here.
\<close>

definition reset :: "int list option \<Rightarrow> player option \<Rightarrow> game \<Rightarrow> game" where
  "reset pcs sp g =
     (let pcs' = (case pcs of None \<Rightarrow> pileCounts (initialConfig g) | Some cs \<Rightarrow> cs);
          sp' = (case sp of None \<Rightarrow> startingPlayer (initialConfig g) | Some q \<Rightarrow> q)
      in g\<lparr>initialConfig := \<lparr>pileCounts = pcs', startingPlayer = sp'\<rparr>,
           piles := mkPiles pcs', currentPlayer := sp', gameOver := False, winner := None\<rparr>)"

section \<open>Notions of the specification\<close>

text \<open>
  The Nim-sum as the specification words it: the exclusive or of all pile counts, on
  unbounded integers. \<open>nimSum\<close> above is what the code computes with \<open>^\<close>.
\<close>

definition xor_all :: "int list \<Rightarrow> int" where
  "xor_all cs = foldl (\<lambda>acc c. acc XOR c) 0 cs"

text \<open>
  The constructor and \<open>reset\<close> give pile number \<open>i\<close> the id \<open>i\<close>, and no method
  assigns to an id.
\<close>

definition ids_ok :: "pile list \<Rightarrow> bool" where
  "ids_ok ps = (map id_p ps = map int [0..<length ps])"

text \<open>
  The pile sizes the engine is constructed and reset with: the interface layer
  (\<open>UIManager.handleStartGame\<close>) keeps the positive numbers of the input and refuses
  an empty list; an omitted argument is the default or the stored configuration.
\<close>

definition valid_sizes :: "int list option \<Rightarrow> bool" where
  "valid_sizes pcs = (case pcs of None \<Rightarrow> True | Some cs \<Rightarrow> cs \<noteq> [] \<and> (\<forall>c\<in>set cs. 0 < c))"

text \<open>
  The games that calls of the public methods reach from such a construction. After a
  TypeError the game stays as the exception left it and can be used further.
\<close>

inductive reachable :: "game \<Rightarrow> bool" where
  r_new: "valid_sizes pcs \<Longrightarrow> reachable (NimGame pcs sp)"
| r_user: "reachable g \<Longrightarrow> reachable (snd (userMove pIdx amt g))"
| r_ai: "reachable g \<Longrightarrow> reachable (snd (makeAIMove g))"
| r_best: "reachable g \<Longrightarrow> reachable (snd (calculateBestMove g))"
| r_reset: "reachable g \<Longrightarrow> valid_sizes pcs \<Longrightarrow> reachable (reset pcs sp g)"

text \<open>A sequence of calls between two resets.\<close>

datatype action = UserMove int int | AIMove | BestMove

fun exec :: "action \<Rightarrow> game \<Rightarrow> game" where
  "exec (UserMove pIdx amt) g = snd (userMove pIdx amt g)"
| "exec AIMove g = snd (makeAIMove g)"
| "exec BestMove g = snd (calculateBestMove g)"

definition play :: "action list \<Rightarrow> game \<Rightarrow> game" where
  "play acts g = foldl (\<lambda>s a. exec a s) g acts"

text \<open>
  A call that the engine refuses in game \<open>g\<close>: \<open>userMove\<close> out of turn, after the end
  of the game, or with an amount that the target pile does not allow; \<open>makeAIMove\<close>
  out of turn or after the end of the game.
\<close>

fun rejected :: "action \<Rightarrow> game \<Rightarrow> bool" where
  "rejected (UserMove pIdx amt) g =
     (currentPlayer g \<noteq> User \<or> gameOver g \<or>
      (0 \<le> pIdx \<and> pIdx < int (length (piles g)) \<and>
       (amt \<le> 0 \<or> count (piles g ! nat pIdx) < amt)))"
| "rejected AIMove g = (currentPlayer g \<noteq> Computer \<or> gameOver g)"
| "rejected BestMove g = False"

text \<open>
  The common tail of \<open>userMove\<close> and \<open>makeAIMove\<close> after the removal:
  \<open>checkGameOver\<close>, then the turn passes to \<open>nxt\<close> unless the game is over.
\<close>

definition finish_turn :: "player \<Rightarrow> game \<Rightarrow> game" where
  "finish_turn nxt g1 =
     (let g2 = checkGameOver g1
      in if \<not> gameOver g2 then g2\<lparr>currentPlayer := nxt\<rparr> else g2)"

text \<open>What holds of every game reached from a valid construction.\<close>

definition inv_game :: "game \<Rightarrow> bool" where
  "inv_game g =
     (piles g \<noteq> [] \<and> ids_ok (piles g) \<and> (\<forall>p\<in>set (piles g). 0 \<le> count p)
      \<and> (gameOver g \<longleftrightarrow> totalItems (piles g) = 0)
      \<and> (winner g = None \<longleftrightarrow> \<not> gameOver g)
      \<and> valid_sizes (Some (pileCounts (initialConfig g))))"

section \<open>Rounding\<close>

lemma round_to_double_exact: "\<bar>x\<bar> < 2 ^ 53 \<Longrightarrow> round_to_double x = x"
proof -
  assume "\<bar>x\<bar> < 2 ^ 53"
  then have "ulp_exp \<bar>x\<bar> = 0" by (simp add: ulp_exp.simps)
  then show ?thesis by (simp add: round_to_double_def)
qed

lemma ulp_exp_le: "0 < n \<Longrightarrow> 2 ^ ulp_exp n \<le> n"
proof (induction n rule: ulp_exp.induct)
  case (1 n)
  show ?case
  proof (cases "n < 2 ^ 53")
    case True
    with "1.prems" show ?thesis by (simp add: ulp_exp.simps [of n])
  next
    case False
    then have "0 < n div 2" by simp
    with "1.IH" False have "2 ^ ulp_exp (n div 2) \<le> n div 2" by simp
    then have "2 * 2 ^ ulp_exp (n div 2) \<le> n" by simp
    with False show ?thesis by (simp add: ulp_exp.simps [of n])
  qed
qed

lemma round_to_double_nonneg: "0 \<le> x \<Longrightarrow> 0 \<le> round_to_double x"
proof -
  assume x: "0 \<le> x"
  define u :: int where "u = 2 ^ ulp_exp \<bar>x\<bar>"
  have u: "0 < u" by (simp add: u_def)
  have q: "0 \<le> x div u" using x u by (simp add: pos_imp_zdiv_nonneg_iff)
  then have "0 \<le> x div u * u" "0 \<le> (x div u + 1) * u" using u by simp_all
  then show ?thesis by (simp add: round_to_double_def Let_def flip: u_def)
qed

lemma round_to_double_pos: "0 < x \<Longrightarrow> 0 < round_to_double x"
proof -
  assume x: "0 < x"
  define u :: int where "u = 2 ^ ulp_exp \<bar>x\<bar>"
  have u: "0 < u" by (simp add: u_def)
  have "2 ^ ulp_exp \<bar>x\<bar> \<le> \<bar>x\<bar>" using x by (intro ulp_exp_le) simp
  then have "u \<le> x" using x by (simp add: u_def)
  then have q: "0 < x div u" using u by (simp add: pos_imp_zdiv_pos_iff)
  then have "0 < x div u * u" "0 < (x div u + 1) * u" using u by simp_all
  then show ?thesis by (simp add: round_to_double_def Let_def flip: u_def)
qed

lemma js_sub_small: "\<bar>a - b\<bar> < 2 ^ 53 \<Longrightarrow> js_sub a b = a - b"
  by (simp add: js_sub_def round_to_double_exact)

lemma js_add_small: "\<bar>a + b\<bar> < 2 ^ 53 \<Longrightarrow> js_add a b = a + b"
  by (simp add: js_add_def round_to_double_exact)

lemma js_add_zero_iff:
  assumes "0 \<le> a" "0 \<le> b"
  shows "js_add a b = 0 \<longleftrightarrow> a = 0 \<and> b = 0"
proof
  assume z: "js_add a b = 0"
  have "\<not> 0 < a + b"
  proof
    assume "0 < a + b"
    then have "0 < round_to_double (a + b)" by (rule round_to_double_pos)
    with z show False by (simp add: js_add_def)
  qed
  with assms show "a = 0 \<and> b = 0" by simp
next
  assume "a = 0 \<and> b = 0"
  then show "js_add a b = 0" by (simp add: js_add_small)
qed

lemma js_add_nonneg: "0 \<le> a \<Longrightarrow> 0 \<le> b \<Longrightarrow> 0 \<le> js_add a b"
  by (simp add: js_add_def round_to_double_nonneg)

lemma js_sub_nonneg: "b \<le> a \<Longrightarrow> 0 \<le> js_sub a b"
  by (simp add: js_sub_def round_to_double_nonneg)

lemma js_sub_31:
  assumes "0 \<le> b" "b \<le> a" "a < 2 ^ 31"
  shows "js_sub a b = a - b"
proof -
  have "\<bar>a - b\<bar> < 2 ^ 31" using assms by simp
  then have "\<bar>a - b\<bar> < 2 ^ 53" by simp
  then show ?thesis by (rule js_sub_small)
qed

section \<open>Pile.removeItems\<close>

text \<open>
  C3, with the count at most \<open>2 ^ 53\<close>. For every pile and every amount \<open>a\<close>: if
  \<open>0 < a \<le> count\<close> then \<open>removeItems\<close> returns true and leaves the id; when the count
  is at most \<open>2 ^ 53\<close> the count becomes exactly \<open>count - a\<close>. If \<open>a \<le> 0\<close> or
  \<open>a > count\<close> it returns false and the pile is unchanged, whatever the count.
\<close>

theorem removeItems_spec:
  "(0 < a \<and> a \<le> count p \<longrightarrow>
      fst (removeItems a p) = True \<and> id_p (snd (removeItems a p)) = id_p p
      \<and> (count p \<le> 2 ^ 53 \<longrightarrow> count (snd (removeItems a p)) = count p - a))
   \<and> (a \<le> 0 \<or> count p < a \<longrightarrow> removeItems a p = (False, p))"
proof -
  have "js_sub (count p) a = count p - a" if "0 < a" "a \<le> count p" "count p \<le> 2 ^ 53"
    using that by (intro js_sub_small) simp
  then show ?thesis by (auto simp: removeItems_def)
qed

theorem removeItems_spec_witness:
  "fst (removeItems 2 (Pile 3 0)) = True \<and> count (snd (removeItems 2 (Pile 3 0))) = 1
   \<and> removeItems 4 (Pile 3 0) = (False, Pile 3 0)
   \<and> removeItems (- 1) (Pile 3 0) = (False, Pile 3 0)
   \<and> count (snd (removeItems 1 (Pile 9007199254740992 0))) = 9007199254740991"
  using removeItems_spec [of 2 "Pile 3 0"] removeItems_spec [of 4 "Pile 3 0"]
    removeItems_spec [of "- 1" "Pile 3 0"] removeItems_spec [of 1 "Pile 9007199254740992 0"]
  by (simp add: Pile_def)

text \<open>
  C3 as stated fails above \<open>2 ^ 53\<close>: a pile of \<open>2 ^ 53 + 2 = 9007199254740994\<close> items
  (a number JavaScript represents exactly) from which \<open>1\<close> is removed reports success
  and holds \<open>2 ^ 53 = 9007199254740992\<close> items afterwards, not 9007199254740993: the
  difference is not a double and rounds to the even neighbour.
\<close>

theorem removeItems_rounding_counterexample:
  "fst (removeItems 1 (Pile 9007199254740994 0)) = True
   \<and> count (snd (removeItems 1 (Pile 9007199254740994 0))) = 9007199254740992"
  by (simp add: removeItems_def Pile_def js_sub_def round_to_double_def ulp_exp.simps Let_def)

section \<open>The exclusive or of JavaScript and of the integers\<close>

lemma js_xor_stb: "js_xor a b = signed_take_bit 31 (a XOR b)"
  by (simp add: js_xor_def sint_sbintrunc' flip: of_int_xor_eq)

lemma js_xor_small:
  assumes "0 \<le> a" "a < 2 ^ 31" "0 \<le> b" "b < 2 ^ 31"
  shows "js_xor a b = a XOR b"
proof -
  have "a XOR b < 2 ^ 31" using assms by (intro XOR_upper) auto
  moreover have "0 \<le> a XOR b" using assms by simp
  ultimately have "signed_take_bit 31 (a XOR b) = a XOR b"
    using signed_take_bit_int_eq_self [of 31 "a XOR b"] by linarith
  then show ?thesis by (simp only: js_xor_stb)
qed

lemma top_bit: "0 < (n::int) \<Longrightarrow> \<exists>k. bit n k \<and> n < 2 ^ Suc k"
proof (induction "nat n" arbitrary: n rule: less_induct)
  case less
  show ?case
  proof (cases "n = 1")
    case True
    then have "bit n 0 \<and> n < 2 ^ Suc 0" by simp
    then show ?thesis by blast
  next
    case False
    with less.prems have pos: "0 < n div 2" by simp
    have "nat (n div 2) < nat n" using less.prems by simp
    from less.hyps [OF this pos] obtain k where k: "bit (n div 2) k" "n div 2 < 2 ^ Suc k"
      by blast
    have "bit n (Suc k)" using k(1) by (simp add: bit_Suc)
    moreover have "n < 2 ^ Suc (Suc k)" using k(2) by simp
    ultimately show ?thesis by blast
  qed
qed

lemma xor_lt:
  assumes c: "0 \<le> (c::int)" and bc: "bit c k" and bn: "bit ns k"
    and n0: "0 \<le> ns" and n1: "ns < 2 ^ Suc k"
  shows "c XOR ns < c"
proof -
  define x where "x = c XOR ns"
  have dn: "drop_bit (Suc k) ns = 0"
    using n0 n1 by (simp add: drop_bit_eq_div)
  have hi: "drop_bit (Suc k) x = drop_bit (Suc k) c"
    unfolding x_def by (simp only: drop_bit_xor dn) simp
  have "\<not> bit x k" using bc bn by (simp add: x_def bit_xor_iff)
  then have lo1: "take_bit (Suc k) x = take_bit k x"
    by (simp add: take_bit_Suc_from_most)
  have lo2: "take_bit (Suc k) c = 2 ^ k + take_bit k c"
    using bc by (simp add: take_bit_Suc_from_most)
  have "take_bit k x < 2 ^ k" by simp
  moreover have "0 \<le> take_bit k c" by simp
  ultimately have lt: "take_bit (Suc k) x < take_bit (Suc k) c"
    using lo1 lo2 by linarith
  have "x = push_bit (Suc k) (drop_bit (Suc k) x) + take_bit (Suc k) x"
    by (simp only: bits_ident)
  also have "\<dots> = push_bit (Suc k) (drop_bit (Suc k) c) + take_bit (Suc k) x"
    by (simp only: hi)
  also have "\<dots> < push_bit (Suc k) (drop_bit (Suc k) c) + take_bit (Suc k) c"
    using lt by simp
  also have "\<dots> = c" by (simp only: bits_ident)
  finally show ?thesis by (simp only: x_def)
qed

lemma xor_all_foldl: "foldl (\<lambda>acc c. acc XOR c) a cs = a XOR xor_all cs"
  unfolding xor_all_def
proof (induction cs arbitrary: a)
  case Nil show ?case by simp
next
  case (Cons c cs)
  show ?case using Cons.IH [of "a XOR c"] Cons.IH [of "0 XOR c"] by (simp add: xor.assoc)
qed

lemma xor_all_Cons: "xor_all (c # cs) = c XOR xor_all cs"
  using xor_all_foldl [of c cs] by (simp add: xor_all_def)

lemma xor_all_Nil: "xor_all [] = 0" by (simp add: xor_all_def)

lemma xor_all_bit: "bit (xor_all cs) k \<Longrightarrow> \<exists>c\<in>set cs. bit c k"
  by (induction cs) (auto simp: xor_all_Cons xor_all_Nil bit_xor_iff)

lemma xor_all_nonneg: "\<forall>c\<in>set cs. 0 \<le> c \<Longrightarrow> 0 \<le> xor_all cs"
  by (induction cs) (auto simp: xor_all_Cons xor_all_Nil)

lemma xor_all_upper: "\<forall>c\<in>set cs. 0 \<le> c \<and> c < 2 ^ n \<Longrightarrow> xor_all cs < 2 ^ n"
  by (induction cs) (auto simp: xor_all_Cons xor_all_Nil intro: XOR_upper)

lemma xor_all_update:
  "i < length cs \<Longrightarrow> xor_all (cs[i := v]) = xor_all cs XOR (cs ! i) XOR v"
proof (induction cs arbitrary: i)
  case Nil then show ?case by simp
next
  case (Cons c cs)
  show ?case
  proof (cases i)
    case 0
    then show ?thesis by (simp add: xor_all_Cons xor.commute xor.left_commute)
  next
    case (Suc j)
    with Cons show ?thesis by (simp add: xor_all_Cons xor.assoc)
  qed
qed

lemma exists_winning:
  assumes nn: "\<forall>c\<in>set cs. 0 \<le> c" and nz: "xor_all cs \<noteq> 0"
  shows "\<exists>c\<in>set cs. c XOR xor_all cs < c"
proof -
  have "0 \<le> xor_all cs" using nn by (rule xor_all_nonneg)
  with nz have "0 < xor_all cs" by simp
  from top_bit [OF this] obtain k where k: "bit (xor_all cs) k" "xor_all cs < 2 ^ Suc k"
    by blast
  from xor_all_bit [OF k(1)] obtain c where c: "c \<in> set cs" "bit c k" by blast
  have "c XOR xor_all cs < c"
    using nn c k \<open>0 \<le> xor_all cs\<close> by (intro xor_lt [of c k]) auto
  with c(1) show ?thesis by blast
qed

lemma nimSum_foldl:
  assumes "toInt32 a = a"
  shows "foldl (\<lambda>acc p. js_xor acc (count p)) a ps = toInt32 (a XOR xor_all (map count ps))"
  using assms
proof (induction ps arbitrary: a)
  case Nil then show ?case by (simp add: xor_all_Nil)
next
  case (Cons p ps)
  have "toInt32 (js_xor a (count p)) = js_xor a (count p)"
    by (simp add: toInt32_def js_xor_def)
  from Cons.IH [OF this]
  have "foldl (\<lambda>acc p. js_xor acc (count p)) a (p # ps)
      = toInt32 (js_xor a (count p) XOR xor_all (map count ps))" by simp
  also have "\<dots> = toInt32 (a XOR xor_all (map count (p # ps)))"
    by (simp add: toInt32_def js_xor_def xor_all_Cons of_int_xor_eq xor.assoc)
  finally show ?case .
qed

lemma nimSum_toInt32: "nimSum ps = toInt32 (xor_all (map count ps))"
  using nimSum_foldl [of 0 ps] by (simp add: nimSum_def toInt32_def)

lemma nimSum_small:
  assumes "\<forall>p\<in>set ps. 0 \<le> count p \<and> count p < 2 ^ 31"
  shows "nimSum ps = xor_all (map count ps)"
proof -
  have "0 \<le> xor_all (map count ps)" using assms by (intro xor_all_nonneg) auto
  moreover have "xor_all (map count ps) < 2 ^ 31" using assms by (intro xor_all_upper) auto
  ultimately have "signed_take_bit 31 (xor_all (map count ps)) = xor_all (map count ps)"
    using signed_take_bit_int_eq_self [of 31 "xor_all (map count ps)"] by linarith
  then show ?thesis by (simp add: nimSum_toInt32 toInt32_def sint_sbintrunc')
qed

section \<open>calculateBestMove on a position with a non-zero Nim-sum\<close>

lemma scanPiles_first:
  assumes "i \<le> j" "j < length ps" "js_xor (count (ps ! j)) ns < count (ps ! j)"
    and "\<forall>l. i \<le> l \<and> l < j \<longrightarrow> \<not> js_xor (count (ps ! l)) ns < count (ps ! l)"
  shows "scanPiles ps ns i
    = Some \<lparr>pileIndex = int j, amount = js_sub (count (ps ! j)) (js_xor (count (ps ! j)) ns)\<rparr>"
  using assms
proof (induction ps ns i rule: scanPiles.induct)
  case (1 ps ns i)
  show ?case
  proof (cases "i = j")
    case True
    with "1.prems" show ?thesis by (simp add: scanPiles.simps [of ps ns j])
  next
    case False
    with "1.prems" have lt: "i < j" by simp
    with "1.prems" have no: "\<not> js_xor (count (ps ! i)) ns < count (ps ! i)" by simp
    have il: "i < length ps" using lt "1.prems" by simp
    have "scanPiles ps ns (i + 1)
      = Some \<lparr>pileIndex = int j, amount = js_sub (count (ps ! j)) (js_xor (count (ps ! j)) ns)\<rparr>"
      using "1.IH" [OF il refl no] lt "1.prems" by simp
    with il no show ?thesis by (simp add: scanPiles.simps [of ps ns i])
  qed
qed

lemma scanPiles_range:
  "scanPiles ps ns i = Some m \<Longrightarrow> 0 \<le> pileIndex m \<and> pileIndex m < int (length ps)"
proof (induction ps ns i rule: scanPiles.induct)
  case (1 ps ns i)
  from "1.prems" show ?case
    by (subst (asm) scanPiles.simps) (auto simp: Let_def split: if_splits dest: "1.IH" [OF _ refl])
qed

lemma exists_least_index:
  assumes "\<exists>j<length ps. P j"
  shows "\<exists>j<length ps. P j \<and> (\<forall>l<j. \<not> P l)"
proof -
  from assms obtain j where j: "j < length ps \<and> P j" by blast
  define k where "k = (LEAST j. j < length ps \<and> P j)"
  have "k < length ps \<and> P k" unfolding k_def using j by (rule LeastI)
  moreover have "\<forall>l<k. \<not> P l"
  proof (intro allI impI)
    fix l assume "l < k"
    then have "\<not> (l < length ps \<and> P l)" unfolding k_def by (rule not_less_Least)
    moreover have "l < length ps" using \<open>l < k\<close> \<open>k < length ps \<and> P k\<close> by simp
    ultimately show "\<not> P l" by simp
  qed
  ultimately show ?thesis by blast
qed

lemma makeAIMove_applies:
  assumes "currentPlayer g = Computer" "\<not> gameOver g"
    and "calculateBestMove g = (Inr (Some m), g)"
    and "0 \<le> pileIndex m" "pileIndex m < int (length (piles g))"
  shows "fst (makeAIMove g) = Inr (Some m)"
    and "piles (snd (makeAIMove g))
      = (piles g)[nat (pileIndex m) := snd (removeItems (amount m) (piles g ! nat (pileIndex m)))]"
  using assms
  by (simp_all add: makeAIMove_def checkGameOver_def Let_def split: prod.splits)

text \<open>
  C1, with the pile counts below \<open>2 ^ 31\<close>. For every game whose pile counts are
  integers from \<open>0\<close> to \<open>2 ^ 31 - 1\<close> and whose Nim-sum is not zero,
  \<open>calculateBestMove\<close> returns a move on the lowest-indexed pile \<open>i\<close> with
  \<open>count i XOR nimSum < count i\<close>, of amount \<open>count i - (count i XOR nimSum)\<close>; the move
  is legal (\<open>0 < amount \<le> count i\<close>, \<open>removeItems\<close> accepts it), and after it the
  exclusive or of all pile counts is \<open>0\<close>, in the integers and as the code computes it.
  \<open>makeAIMove\<close>, when it is the computer's turn, applies exactly this move.
\<close>

theorem calculateBestMove_winning:
  assumes rng: "\<forall>p\<in>set (piles g). 0 \<le> count p \<and> count p < 2 ^ 31"
    and nz: "xor_all (map count (piles g)) \<noteq> 0"
  shows "\<exists>i amt. i < length (piles g)
     \<and> calculateBestMove g = (Inr (Some \<lparr>pileIndex = int i, amount = amt\<rparr>), g)
     \<and> (count (piles g ! i) XOR xor_all (map count (piles g))) < count (piles g ! i)
     \<and> (\<forall>j<i. \<not> (count (piles g ! j) XOR xor_all (map count (piles g))) < count (piles g ! j))
     \<and> amt = count (piles g ! i) - (count (piles g ! i) XOR xor_all (map count (piles g)))
     \<and> 0 < amt \<and> amt \<le> count (piles g ! i)
     \<and> removeItems amt (piles g ! i) = (True, (piles g ! i)\<lparr>count := count (piles g ! i) - amt\<rparr>)
     \<and> xor_all (map count ((piles g)[i := snd (removeItems amt (piles g ! i))])) = 0
     \<and> nimSum ((piles g)[i := snd (removeItems amt (piles g ! i))]) = 0
     \<and> (currentPlayer g = Computer \<and> \<not> gameOver g \<longrightarrow>
          fst (makeAIMove g) = Inr (Some \<lparr>pileIndex = int i, amount = amt\<rparr>)
          \<and> piles (snd (makeAIMove g)) = (piles g)[i := snd (removeItems amt (piles g ! i))])"
proof -
  define ps where "ps = piles g"
  define ns where "ns = xor_all (map count ps)"
  have rng': "\<forall>p\<in>set ps. 0 \<le> count p \<and> count p < 2 ^ 31" using rng by (simp add: ps_def)
  have ns_code: "nimSum ps = ns" unfolding ns_def using rng' by (rule nimSum_small)
  have ns0: "0 \<le> ns" unfolding ns_def using rng' by (intro xor_all_nonneg) auto
  have ns1: "ns < 2 ^ 31" unfolding ns_def using rng' by (intro xor_all_upper) auto
  have nz': "ns \<noteq> 0" using nz by (simp add: ns_def ps_def)
  have js: "js_xor (count (ps ! j)) ns = count (ps ! j) XOR ns" if "j < length ps" for j
  proof -
    from that have "ps ! j \<in> set ps" by simp
    with rng' have "0 \<le> count (ps ! j)" "count (ps ! j) < 2 ^ 31" by auto
    then show ?thesis using ns0 ns1 by (intro js_xor_small)
  qed
  have "\<exists>c\<in>set (map count ps). c XOR xor_all (map count ps) < c"
    using rng' nz' by (intro exists_winning) (auto simp: ns_def)
  then obtain p where "p \<in> set ps" "count p XOR ns < count p" by (auto simp: ns_def)
  then have "\<exists>j<length ps. count (ps ! j) XOR ns < count (ps ! j)"
    by (metis in_set_conv_nth)
  from exists_least_index [of ps "\<lambda>j. count (ps ! j) XOR ns < count (ps ! j)", OF this]
  obtain i where i: "i < length ps" "count (ps ! i) XOR ns < count (ps ! i)"
    and least: "\<forall>l<i. \<not> count (ps ! l) XOR ns < count (ps ! l)" by blast
  define c where "c = count (ps ! i)"
  define amt where "amt = c - (c XOR ns)"
  have "ps ! i \<in> set ps" using i(1) by simp
  with rng' have c0: "0 \<le> c" and c1: "c < 2 ^ 31" by (auto simp: c_def)
  have t0: "0 \<le> c XOR ns" using c0 ns0 by simp
  have t1: "c XOR ns < c" using i(2) by (simp add: c_def)
  have amt0: "0 < amt" and amt1: "amt \<le> c" using t0 t1 by (simp_all add: amt_def)
  have scan: "scanPiles ps ns 0 = Some \<lparr>pileIndex = int i, amount = amt\<rparr>"
  proof -
    have "scanPiles ps ns 0
      = Some \<lparr>pileIndex = int i, amount = js_sub (count (ps ! i)) (js_xor (count (ps ! i)) ns)\<rparr>"
    proof (rule scanPiles_first)
      show "js_xor (count (ps ! i)) ns < count (ps ! i)" using i by (simp add: js)
      show "\<forall>l. 0 \<le> l \<and> l < i \<longrightarrow> \<not> js_xor (count (ps ! l)) ns < count (ps ! l)"
        using least i(1) by (simp add: js)
    qed (use i in simp_all)
    moreover have "js_sub c (c XOR ns) = c - (c XOR ns)"
      using t0 t1 c1 by (intro js_sub_31) simp_all
    ultimately show ?thesis using i(1) by (simp add: js amt_def c_def)
  qed
  have best: "calculateBestMove g = (Inr (Some \<lparr>pileIndex = int i, amount = amt\<rparr>), g)"
    using scan ns_code nz' by (simp add: calculateBestMove_def Let_def ps_def)
  have "js_sub c amt = c - amt" using amt0 amt1 c1 by (intro js_sub_31) simp_all
  then have rem: "removeItems amt (ps ! i) = (True, (ps ! i)\<lparr>count := c - amt\<rparr>)"
    using amt0 amt1 by (simp add: removeItems_def c_def)
  define ps' where "ps' = ps[i := snd (removeItems amt (ps ! i))]"
  have cnt': "map count ps' = (map count ps)[i := c XOR ns]"
    using rem by (simp add: ps'_def map_update amt_def)
  have x0: "xor_all (map count ps') = 0"
  proof -
    have "xor_all (map count ps') = xor_all (map count ps) XOR (map count ps ! i) XOR (c XOR ns)"
      unfolding cnt' using i(1) by (intro xor_all_update) simp
    also have "\<dots> = ns XOR c XOR (c XOR ns)" using i(1) by (simp add: ns_def c_def)
    also have "\<dots> = 0" by (simp add: xor.commute)
    finally show ?thesis .
  qed
  have rng'': "\<forall>p\<in>set ps'. 0 \<le> count p \<and> count p < 2 ^ 31"
  proof
    fix p assume "p \<in> set ps'"
    then have "p \<in> insert ((ps ! i)\<lparr>count := c - amt\<rparr>) (set ps)"
      using set_update_subset_insert [of ps i] by (auto simp: ps'_def rem)
    then show "0 \<le> count p \<and> count p < 2 ^ 31"
      using rng' amt0 amt1 c1 by auto
  qed
  have n0: "nimSum ps' = 0" using nimSum_small [OF rng''] x0 by simp
  have ai: "currentPlayer g = Computer \<and> \<not> gameOver g \<longrightarrow>
          fst (makeAIMove g) = Inr (Some \<lparr>pileIndex = int i, amount = amt\<rparr>)
          \<and> piles (snd (makeAIMove g)) = ps'"
    using makeAIMove_applies [of g "\<lparr>pileIndex = int i, amount = amt\<rparr>"] best i(1)
    by (simp add: ps_def ps'_def)
  show ?thesis
    apply (rule exI [of _ i], rule exI [of _ amt])
    using i least amt0 amt1 best rem x0 n0 ai
    unfolding ps'_def ns_def c_def amt_def ps_def
    apply (intro conjI)
    apply simp_all
    done
qed

theorem calculateBestMove_winning_witness:
  "map count (piles (NimGame (Some [3, 4, 5]) (Some Computer))) = [3, 4, 5]
   \<and> xor_all [3, 4, 5] = 2
   \<and> calculateBestMove (NimGame (Some [3, 4, 5]) (Some Computer))
       = (Inr (Some \<lparr>pileIndex = 0, amount = 2\<rparr>), NimGame (Some [3, 4, 5]) (Some Computer))
   \<and> (\<exists>i amt. i < length (piles (NimGame (Some [3, 4, 5]) (Some Computer)))
       \<and> calculateBestMove (NimGame (Some [3, 4, 5]) (Some Computer))
          = (Inr (Some \<lparr>pileIndex = int i, amount = amt\<rparr>),
             NimGame (Some [3, 4, 5]) (Some Computer))
       \<and> 0 < amt \<and> amt \<le> count (piles (NimGame (Some [3, 4, 5]) (Some Computer)) ! i)
       \<and> xor_all (map count ((piles (NimGame (Some [3, 4, 5]) (Some Computer)))
            [i := snd (removeItems amt (piles (NimGame (Some [3, 4, 5]) (Some Computer)) ! i))]))
          = 0)"
proof -
  define G where "G = NimGame (Some [3, 4, 5]) (Some Computer)"
  have ps: "piles G = [Pile 3 0, Pile 4 1, Pile 5 2]"
    by (simp add: G_def NimGame_def mkPiles_def enumerate_eq_zip upt_rec)
  have h1: "\<forall>p\<in>set (piles G). 0 \<le> count p \<and> count p < 2 ^ 31"
    by (simp add: ps Pile_def)
  have x: "xor_all [3, 4, 5] = 2" by (simp add: xor_all_def)
  have h2: "xor_all (map count (piles G)) \<noteq> 0" by (simp add: ps Pile_def x)
  have best: "calculateBestMove G = (Inr (Some \<lparr>pileIndex = 0, amount = 2\<rparr>), G)"
    by (simp add: G_def calculateBestMove_def NimGame_def mkPiles_def Pile_def nimSum_def
        js_xor_def scanPiles.simps js_sub_small enumerate_eq_zip upt_rec)
  from calculateBestMove_winning [OF h1 h2] have "\<exists>i amt. i < length (piles G)
       \<and> calculateBestMove G = (Inr (Some \<lparr>pileIndex = int i, amount = amt\<rparr>), G)
       \<and> 0 < amt \<and> amt \<le> count (piles G ! i)
       \<and> xor_all (map count ((piles G)[i := snd (removeItems amt (piles G ! i))])) = 0"
    by blast
  with best x ps show ?thesis unfolding G_def by (simp add: Pile_def)
qed

text \<open>
  C1 as stated fails for a pile of \<open>2 ^ 31\<close> items: on the piles \<open>[1, 2147483648]\<close> the
  Nim-sum is not zero (neither in the integers nor as \<open>^\<close> computes it), and the move
  returned asks for 2147483649 items of pile 0, which holds 1; \<open>removeItems\<close> refuses it.
\<close>

theorem calculateBestMove_large_counterexample:
  "xor_all (map count (piles (NimGame (Some [1, 2147483648]) (Some Computer)))) = 2147483649
   \<and> nimSum (piles (NimGame (Some [1, 2147483648]) (Some Computer))) = - 2147483647
   \<and> fst (calculateBestMove (NimGame (Some [1, 2147483648]) (Some Computer)))
       = Inr (Some \<lparr>pileIndex = 0, amount = 2147483649\<rparr>)
   \<and> count (piles (NimGame (Some [1, 2147483648]) (Some Computer)) ! 0) = 1
   \<and> fst (removeItems 2147483649 (piles (NimGame (Some [1, 2147483648]) (Some Computer)) ! 0))
       = False"
  by (simp add: calculateBestMove_def NimGame_def mkPiles_def Pile_def nimSum_def js_xor_def
      xor_all_def removeItems_def scanPiles.simps js_sub_small enumerate_eq_zip upt_rec)

section \<open>Rejected moves\<close>

lemma userMove_rejected:
  assumes "rejected (UserMove pIdx amt) g"
  shows "userMove pIdx amt g = (Inr False, g)"
  using assms by (auto simp: userMove_def removeItems_def Let_def)

lemma makeAIMove_rejected:
  assumes "rejected AIMove g"
  shows "makeAIMove g = (Inr None, g)"
  using assms by (auto simp: makeAIMove_def)

lemma exec_rejected: "rejected act g \<Longrightarrow> exec act g = g"
  by (cases act) (simp_all only: exec.simps userMove_rejected makeAIMove_rejected snd_conv rejected.simps)

lemma play_rejected: "\<forall>act\<in>set acts. rejected act g \<Longrightarrow> play acts g = g"
  unfolding play_def
  by (induction acts) (simp_all add: exec_rejected)

text \<open>
  C4. Every rejected move leaves the whole game (all piles, \<open>currentPlayer\<close>,
  \<open>gameOver\<close>, \<open>winner\<close>, \<open>initialConfig\<close>) as it was and signals failure:
  \<open>userMove\<close> returns false when it is not the user's turn, when the game is over, or
  when the amount is not one the target pile allows; \<open>makeAIMove\<close> returns null when
  it is not the computer's turn or the game is over. Any sequence of such rejected
  calls, of any length, leaves the game as it was.
\<close>

theorem rejected_moves_change_nothing:
  "(currentPlayer g \<noteq> User \<or> gameOver g \<longrightarrow> userMove pIdx amt g = (Inr False, g))
   \<and> (0 \<le> pIdx \<and> pIdx < int (length (piles g))
        \<and> (amt \<le> 0 \<or> count (piles g ! nat pIdx) < amt)
       \<longrightarrow> userMove pIdx amt g = (Inr False, g))
   \<and> (currentPlayer g \<noteq> Computer \<or> gameOver g \<longrightarrow> makeAIMove g = (Inr None, g))
   \<and> ((\<forall>act\<in>set acts. rejected act g) \<longrightarrow> play acts g = g)"
proof (intro conjI impI)
  assume "currentPlayer g \<noteq> User \<or> gameOver g"
  then have "rejected (UserMove pIdx amt) g" by auto
  then show "userMove pIdx amt g = (Inr False, g)" by (rule userMove_rejected)
next
  assume "0 \<le> pIdx \<and> pIdx < int (length (piles g))
        \<and> (amt \<le> 0 \<or> count (piles g ! nat pIdx) < amt)"
  then have "rejected (UserMove pIdx amt) g" by auto
  then show "userMove pIdx amt g = (Inr False, g)" by (rule userMove_rejected)
next
  assume "currentPlayer g \<noteq> Computer \<or> gameOver g"
  then have "rejected AIMove g" by simp
  then show "makeAIMove g = (Inr None, g)" by (rule makeAIMove_rejected)
next
  assume "\<forall>act\<in>set acts. rejected act g"
  then show "play acts g = g" by (rule play_rejected)
qed

theorem rejected_moves_change_nothing_witness:
  "userMove 0 10 (NimGame (Some [3, 4, 5]) (Some User))
     = (Inr False, NimGame (Some [3, 4, 5]) (Some User))
   \<and> userMove 0 1 (NimGame (Some [3, 4, 5]) (Some Computer))
     = (Inr False, NimGame (Some [3, 4, 5]) (Some Computer))
   \<and> makeAIMove (NimGame (Some [3, 4, 5]) (Some User))
     = (Inr None, NimGame (Some [3, 4, 5]) (Some User))
   \<and> play [UserMove 0 10, AIMove, UserMove 1 0, UserMove 2 (- 3), UserMove 0 10]
        (NimGame (Some [3, 4, 5]) (Some User))
     = NimGame (Some [3, 4, 5]) (Some User)"
proof -
  define G where "G = NimGame (Some [3, 4, 5]) (Some User)"
  define H where "H = NimGame (Some [3, 4, 5]) (Some Computer)"
  have ps: "piles G = [Pile 3 0, Pile 4 1, Pile 5 2]" "currentPlayer G = User" "\<not> gameOver G"
    by (simp_all add: G_def NimGame_def mkPiles_def enumerate_eq_zip upt_rec)
  have h: "currentPlayer H \<noteq> User" by (simp add: H_def NimGame_def Let_def)
  have a: "userMove 0 10 G = (Inr False, G)"
    using rejected_moves_change_nothing [of G 0 10 "[]"] by (simp add: ps Pile_def)
  have b: "userMove 0 1 H = (Inr False, H)"
    using rejected_moves_change_nothing [of H 0 1 "[]"] h by simp
  have c: "makeAIMove G = (Inr None, G)"
    using rejected_moves_change_nothing [of G 0 10 "[]"] by (simp add: ps)
  have d: "play [UserMove 0 10, AIMove, UserMove 1 0, UserMove 2 (- 3), UserMove 0 10] G = G"
    using rejected_moves_change_nothing
      [of G 0 10 "[UserMove 0 10, AIMove, UserMove 1 0, UserMove 2 (- 3), UserMove 0 10]"]
    by (simp add: ps Pile_def)
  from a b c d show ?thesis unfolding G_def H_def by simp
qed

section \<open>calculateBestMove on a position with Nim-sum zero\<close>

lemma ids_ok_nth: "ids_ok ps \<Longrightarrow> i < length ps \<Longrightarrow> id_p (ps ! i) = int i"
proof -
  assume a: "ids_ok ps" "i < length ps"
  then have "map id_p ps ! i = map int [0..<length ps] ! i" by (simp add: ids_ok_def)
  with a(2) show ?thesis by simp
qed

lemma xor_all_zero_nimSum: "xor_all (map count ps) = 0 \<Longrightarrow> nimSum ps = 0"
  by (simp add: nimSum_toInt32 toInt32_def)

text \<open>
  C6. For every game with at least one non-empty pile whose Nim-sum is zero (as the code
  computes it, which includes every game where the exclusive or of the counts is zero
  in the integers), \<open>calculateBestMove\<close> returns the move that takes \<open>1\<close> from the
  lowest-indexed pile with a positive count. The code returns the id of that pile,
  which is its index in every game the constructor or \<open>reset\<close> has built.
\<close>

theorem calculateBestMove_fallback:
  assumes ids: "ids_ok (piles g)"
    and zero: "nimSum (piles g) = 0 \<or> xor_all (map count (piles g)) = 0"
    and some: "\<exists>p\<in>set (piles g). 0 < count p"
  shows "\<exists>i<length (piles g). 0 < count (piles g ! i)
            \<and> (\<forall>j<i. \<not> 0 < count (piles g ! j))
            \<and> calculateBestMove g = (Inr (Some \<lparr>pileIndex = int i, amount = 1\<rparr>), g)"
proof -
  from zero have ns: "nimSum (piles g) = 0" by (auto dest: xor_all_zero_nimSum)
  from some have "find (\<lambda>p. 0 < count p) (piles g) \<noteq> None" by (auto simp: find_None_iff)
  then obtain fp where fp: "find (\<lambda>p. 0 < count p) (piles g) = Some fp" by blast
  then obtain i where i: "i < length (piles g)" "0 < count (piles g ! i)" "fp = piles g ! i"
    "\<forall>j<i. \<not> 0 < count (piles g ! j)"
    unfolding find_Some_iff by blast
  have "id_p fp = int i" using ids i(1,3) by (simp add: ids_ok_nth)
  then have "calculateBestMove g = (Inr (Some \<lparr>pileIndex = int i, amount = 1\<rparr>), g)"
    using ns fp by (simp add: calculateBestMove_def)
  with i show ?thesis by blast
qed

theorem calculateBestMove_fallback_witness:
  "map id_p (piles (NimGame (Some [0, 2, 2]) (Some Computer))) = [0, 1, 2]
   \<and> nimSum (piles (NimGame (Some [0, 2, 2]) (Some Computer))) = 0
   \<and> count (piles (NimGame (Some [0, 2, 2]) (Some Computer)) ! 1) = 2
   \<and> calculateBestMove (NimGame (Some [0, 2, 2]) (Some Computer))
      = (Inr (Some \<lparr>pileIndex = 1, amount = 1\<rparr>), NimGame (Some [0, 2, 2]) (Some Computer))
   \<and> (\<exists>i<length (piles (NimGame (Some [0, 2, 2]) (Some Computer))).
        0 < count (piles (NimGame (Some [0, 2, 2]) (Some Computer)) ! i)
        \<and> calculateBestMove (NimGame (Some [0, 2, 2]) (Some Computer))
           = (Inr (Some \<lparr>pileIndex = int i, amount = 1\<rparr>),
              NimGame (Some [0, 2, 2]) (Some Computer)))"
proof -
  define G where "G = NimGame (Some [0, 2, 2]) (Some Computer)"
  have ps: "piles G = [Pile 0 0, Pile 2 1, Pile 2 2]"
    by (simp add: G_def NimGame_def mkPiles_def enumerate_eq_zip upt_rec)
  have h1: "ids_ok (piles G)" by (simp add: ps ids_ok_def Pile_def upt_rec)
  have ns: "nimSum (piles G) = 0" by (simp add: ps Pile_def nimSum_def js_xor_def)
  then have h2: "nimSum (piles G) = 0 \<or> xor_all (map count (piles G)) = 0" by simp
  have h3: "\<exists>p\<in>set (piles G). 0 < count p" by (simp add: ps Pile_def)
  have best: "calculateBestMove G = (Inr (Some \<lparr>pileIndex = 1, amount = 1\<rparr>), G)"
    using ns by (simp add: calculateBestMove_def) (simp add: ps Pile_def)
  from calculateBestMove_fallback [OF h1 h2 h3]
  have "\<exists>i<length (piles G). 0 < count (piles G ! i)
        \<and> calculateBestMove G = (Inr (Some \<lparr>pileIndex = int i, amount = 1\<rparr>), G)" by blast
  with ns best ps show ?thesis unfolding G_def by (simp add: Pile_def)
qed

section \<open>reset\<close>

lemma length_mkPiles: "length (mkPiles cs) = length cs"
  by (simp add: mkPiles_def)

lemma nth_mkPiles: "i < length cs \<Longrightarrow> mkPiles cs ! i = Pile (cs ! i) (int i)"
  by (simp add: mkPiles_def nth_enumerate_eq)

lemma count_mkPiles: "map count (mkPiles cs) = cs"
  by (rule nth_equalityI) (simp_all add: length_mkPiles nth_mkPiles Pile_def)

lemma ids_mkPiles: "map id_p (mkPiles cs) = map int [0..<length cs]"
  by (rule nth_equalityI) (simp_all add: length_mkPiles nth_mkPiles Pile_def)

lemma ids_ok_mkPiles: "ids_ok (mkPiles cs)"
  by (simp add: ids_ok_def ids_mkPiles length_mkPiles)

lemma userMove_config: "initialConfig (snd (userMove pIdx amt g)) = initialConfig g"
  by (simp add: userMove_def checkGameOver_def Let_def split: prod.splits)

lemma calculateBestMove_snd: "snd (calculateBestMove g) = g"
  by (simp add: calculateBestMove_def Let_def split: option.splits)

lemma makeAIMove_config: "initialConfig (snd (makeAIMove g)) = initialConfig g"
proof (cases "calculateBestMove g")
  case (Pair r g0)
  with calculateBestMove_snd [of g] have "g0 = g" by simp
  with Pair show ?thesis
    by (simp add: makeAIMove_def checkGameOver_def Let_def split: prod.splits sum.splits option.splits)
qed

lemma exec_config: "initialConfig (exec act g) = initialConfig g"
  by (cases act) (simp_all add: userMove_config makeAIMove_config calculateBestMove_snd)

lemma play_config: "initialConfig (play acts g) = initialConfig g"
  unfolding play_def by (induction acts arbitrary: g) (simp_all add: exec_config)

lemma reset_None_eq:
  "initialConfig g = initialConfig h \<Longrightarrow> reset None None g = reset None None h"
  by (cases g, cases h) (simp add: reset_def)

text \<open>
  C7. \<open>reset()\<close> without arguments, in any game (also one that has been played down
  or is over), builds the piles anew from the stored \<open>initialConfig\<close>: their counts are
  the stored pile sizes and their ids are \<open>0 .. n - 1\<close>; \<open>currentPlayer\<close> is the stored
  starting player, \<open>gameOver\<close> is false and \<open>winner\<close> is null; \<open>initialConfig\<close> stays.
  \<open>reset(pileSizes, startingPlayer)\<close> does the same from its arguments and stores them
  as \<open>initialConfig\<close>: after any sequence of moves, a later \<open>reset()\<close> gives back
  exactly the game that \<open>reset(pileSizes, startingPlayer)\<close> (or the constructor) built.
\<close>

theorem reset_restores:
  "piles (reset None None g) = mkPiles (pileCounts (initialConfig g))
   \<and> map count (piles (reset None None g)) = pileCounts (initialConfig g)
   \<and> map id_p (piles (reset None None g)) = map int [0..<length (pileCounts (initialConfig g))]
   \<and> currentPlayer (reset None None g) = startingPlayer (initialConfig g)
   \<and> gameOver (reset None None g) = False
   \<and> winner (reset None None g) = None
   \<and> initialConfig (reset None None g) = initialConfig g
   \<and> initialConfig (reset (Some cs) (Some sp) g) = \<lparr>pileCounts = cs, startingPlayer = sp\<rparr>
   \<and> map count (piles (reset (Some cs) (Some sp) g)) = cs
   \<and> map id_p (piles (reset (Some cs) (Some sp) g)) = map int [0..<length cs]
   \<and> currentPlayer (reset (Some cs) (Some sp) g) = sp
   \<and> gameOver (reset (Some cs) (Some sp) g) = False
   \<and> winner (reset (Some cs) (Some sp) g) = None
   \<and> reset None None (play acts (reset (Some cs) (Some sp) g)) = reset (Some cs) (Some sp) g
   \<and> reset None None (play acts (NimGame (Some cs) (Some sp))) = NimGame (Some cs) (Some sp)"
proof -
  have a: "reset None None (play acts (reset (Some cs) (Some sp) g)) = reset (Some cs) (Some sp) g"
  proof -
    have "initialConfig (play acts (reset (Some cs) (Some sp) g))
        = initialConfig (reset (Some cs) (Some sp) g)" by (rule play_config)
    then have "reset None None (play acts (reset (Some cs) (Some sp) g))
        = reset None None (reset (Some cs) (Some sp) g)" by (rule reset_None_eq)
    also have "\<dots> = reset (Some cs) (Some sp) g" by (simp add: reset_def)
    finally show ?thesis .
  qed
  have b: "reset None None (play acts (NimGame (Some cs) (Some sp))) = NimGame (Some cs) (Some sp)"
  proof -
    have "initialConfig (play acts (NimGame (Some cs) (Some sp)))
        = initialConfig (NimGame (Some cs) (Some sp))" by (rule play_config)
    then have "reset None None (play acts (NimGame (Some cs) (Some sp)))
        = reset None None (NimGame (Some cs) (Some sp))" by (rule reset_None_eq)
    also have "\<dots> = NimGame (Some cs) (Some sp)" by (simp add: reset_def NimGame_def)
    finally show ?thesis .
  qed
  show ?thesis
    by (simp add: a b) (simp add: reset_def Let_def count_mkPiles ids_mkPiles)
qed

theorem reset_restores_witness:
  "map count (piles (play [UserMove 0 3, AIMove, UserMove 1 1]
       (NimGame (Some [3, 4, 5]) (Some User)))) = [0, 3, 4]
   \<and> reset None None (play [UserMove 0 3, AIMove, UserMove 1 1]
       (NimGame (Some [3, 4, 5]) (Some User))) = NimGame (Some [3, 4, 5]) (Some User)
   \<and> map count (piles (NimGame (Some [3, 4, 5]) (Some User))) = [3, 4, 5]
   \<and> map id_p (piles (NimGame (Some [3, 4, 5]) (Some User))) = [0, 1, 2]"
proof -
  have "map count (piles (play [UserMove 0 3, AIMove, UserMove 1 1]
       (NimGame (Some [3, 4, 5]) (Some User)))) = [0, 3, 4]"
    by (simp add: play_def userMove_def makeAIMove_def calculateBestMove_def NimGame_def
        mkPiles_def Pile_def nimSum_def js_xor_def removeItems_def js_sub_small checkGameOver_def
        totalItems_def js_add_small scanPiles.simps js_sub_small enumerate_eq_zip upt_rec Let_def)
  moreover have "map count (piles (NimGame (Some [3, 4, 5]) (Some User))) = [3, 4, 5]
    \<and> map id_p (piles (NimGame (Some [3, 4, 5]) (Some User))) = [0, 1, 2]"
    by (simp add: NimGame_def mkPiles_def Pile_def enumerate_eq_zip upt_rec)
  ultimately show ?thesis
    using reset_restores [of "NimGame (Some [3, 4, 5]) (Some User)"
        "[3, 4, 5]" User "[UserMove 0 3, AIMove, UserMove 1 1]"]
    by simp
qed

section \<open>calculateBestMove when every pile is empty\<close>

lemma find_all_zero: "\<forall>p\<in>set ps. count p = 0 \<Longrightarrow> find (\<lambda>p. 0 < count p) ps = None"
  by (simp add: find_None_iff)

lemma js_xor_zero: "js_xor 0 0 = 0" by (simp add: js_xor_def)

lemma nimSum_all_zero: "\<forall>p\<in>set ps. count p = 0 \<Longrightarrow> nimSum ps = 0"
  unfolding nimSum_def by (induction ps) (simp_all add: js_xor_zero)

text \<open>
  C9 says that \<open>calculateBestMove\<close> returns no move (null) when every pile has count
  \<open>0\<close>. The code does not: the Nim-sum is \<open>0\<close>, \<open>find\<close> returns \<open>undefined\<close>, and
  reading \<open>firstPile.id\<close> raises a TypeError. The \<open>return null\<close> at the end of the
  function is not reached.
\<close>

theorem calculateBestMove_all_empty:
  assumes "\<forall>p\<in>set (piles g). count p = 0"
  shows "calculateBestMove g = (Inl TypeError, g)"
  using assms by (simp add: calculateBestMove_def nimSum_all_zero find_all_zero)

theorem calculateBestMove_all_empty_witness:
  "fst (userMove 0 1 (NimGame (Some [1]) (Some User))) = Inr True
   \<and> map count (piles (snd (userMove 0 1 (NimGame (Some [1]) (Some User))))) = [0]
   \<and> gameOver (snd (userMove 0 1 (NimGame (Some [1]) (Some User)))) = True
   \<and> fst (calculateBestMove (snd (userMove 0 1 (NimGame (Some [1]) (Some User)))))
      = Inl TypeError"
proof -
  define G where "G = snd (userMove 0 1 (NimGame (Some [1]) (Some User)))"
  have g: "fst (userMove 0 1 (NimGame (Some [1]) (Some User))) = Inr True"
    "map count (piles G) = [0]" "gameOver G"
    by (simp_all add: G_def userMove_def NimGame_def mkPiles_def Pile_def removeItems_def js_sub_small
        checkGameOver_def totalItems_def js_add_small enumerate_eq_zip upt_rec Let_def)
  from g(2) have "\<forall>p\<in>set (piles G). count p = 0" by (cases "piles G") auto
  from calculateBestMove_all_empty [OF this] g show ?thesis unfolding G_def by simp
qed

section \<open>calculateBestMove changes nothing\<close>

text \<open>
  C10. \<open>calculateBestMove\<close> is a query: the game after the call is the game before it
  (every pile count, \<open>currentPlayer\<close>, \<open>gameOver\<close>, \<open>winner\<close> and \<open>initialConfig\<close>),
  and a second call on the game the first one left returns the same result.
\<close>

theorem calculateBestMove_pure:
  "snd (calculateBestMove g) = g
   \<and> map count (piles (snd (calculateBestMove g))) = map count (piles g)
   \<and> currentPlayer (snd (calculateBestMove g)) = currentPlayer g
   \<and> gameOver (snd (calculateBestMove g)) = gameOver g
   \<and> winner (snd (calculateBestMove g)) = winner g
   \<and> initialConfig (snd (calculateBestMove g)) = initialConfig g
   \<and> fst (calculateBestMove (snd (calculateBestMove g))) = fst (calculateBestMove g)"
  by (simp add: calculateBestMove_snd)

theorem calculateBestMove_pure_witness:
  "snd (calculateBestMove (NimGame (Some [3, 4, 5]) (Some Computer)))
     = NimGame (Some [3, 4, 5]) (Some Computer)
   \<and> fst (calculateBestMove (snd (calculateBestMove (NimGame (Some [3, 4, 5]) (Some Computer)))))
     = Inr (Some \<lparr>pileIndex = 0, amount = 2\<rparr>)"
proof -
  have "fst (calculateBestMove (NimGame (Some [3, 4, 5]) (Some Computer)))
     = Inr (Some \<lparr>pileIndex = 0, amount = 2\<rparr>)"
    by (simp add: calculateBestMove_def NimGame_def mkPiles_def Pile_def nimSum_def
        js_xor_def scanPiles.simps js_sub_small enumerate_eq_zip upt_rec)
  with calculateBestMove_pure [of "NimGame (Some [3, 4, 5]) (Some Computer)"]
  show ?thesis by simp
qed

section \<open>The invariant of reachable games\<close>

lemma totalItems_foldl:
  assumes "0 \<le> a" "\<forall>p\<in>set ps. 0 \<le> count p"
  shows "foldl (\<lambda>acc p. js_add acc (count p)) a ps = 0
    \<longleftrightarrow> a = 0 \<and> (\<forall>p\<in>set ps. count p = 0)"
  using assms
proof (induction ps arbitrary: a)
  case Nil
  show ?case by simp
next
  case (Cons p ps)
  have "0 \<le> js_add a (count p)" using Cons.prems by (simp add: js_add_nonneg)
  moreover have "\<forall>q\<in>set ps. 0 \<le> count q" using Cons.prems by simp
  ultimately have "foldl (\<lambda>acc p. js_add acc (count p)) (js_add a (count p)) ps = 0
    \<longleftrightarrow> js_add a (count p) = 0 \<and> (\<forall>q\<in>set ps. count q = 0)" by (rule Cons.IH)
  moreover have "js_add a (count p) = 0 \<longleftrightarrow> a = 0 \<and> count p = 0"
    using Cons.prems by (intro js_add_zero_iff) simp_all
  ultimately show ?case by auto
qed

lemma totalItems_zero_iff:
  assumes "\<forall>p\<in>set ps. 0 \<le> count p"
  shows "totalItems ps = 0 \<longleftrightarrow> (\<forall>p\<in>set ps. count p = 0)"
  using totalItems_foldl [of 0 ps] assms by (simp add: totalItems_def)

lemma removeItems_id: "id_p (snd (removeItems amt p)) = id_p p"
  by (simp add: removeItems_def)

lemma removeItems_nonneg: "0 \<le> count p \<Longrightarrow> 0 \<le> count (snd (removeItems amt p))"
  by (simp add: removeItems_def js_sub_nonneg)

lemma ids_ok_update:
  assumes "ids_ok ps" "k < length ps" "id_p q = id_p (ps ! k)"
  shows "ids_ok (ps[k := q])"
proof -
  have "map id_p (ps[k := q]) = (map id_p ps)[k := id_p (ps ! k)]"
    using assms(3) by (simp add: map_update)
  also have "\<dots> = map id_p ps" using assms(2) by (simp add: list_update_same_conv)
  finally show ?thesis using assms(1) by (simp add: ids_ok_def)
qed

lemma userMove_eq:
  "userMove pIdx amt g =
     (if currentPlayer g \<noteq> User \<or> gameOver g then (Inr False, g)
      else if pIdx < 0 \<or> int (length (piles g)) \<le> pIdx then (Inl TypeError, g)
      else if 0 < amt \<and> amt \<le> count (piles g ! nat pIdx)
        then (Inr True, finish_turn Computer
               (g\<lparr>piles := (piles g)[nat pIdx := snd (removeItems amt (piles g ! nat pIdx))]\<rparr>))
        else (Inr False, g))"
  by (simp add: userMove_def finish_turn_def removeItems_def Let_def)

lemma makeAIMove_eq:
  "makeAIMove g =
     (if currentPlayer g \<noteq> Computer \<or> gameOver g then (Inr None, g)
      else case fst (calculateBestMove g) of
          Inl e \<Rightarrow> (Inl e, g)
        | Inr None \<Rightarrow> (Inr None, g)
        | Inr (Some m) \<Rightarrow>
            if pileIndex m < 0 \<or> int (length (piles g)) \<le> pileIndex m
            then (Inl TypeError, g)
            else (Inr (Some m), finish_turn User
               (g\<lparr>piles := (piles g)[nat (pileIndex m) :=
                    snd (removeItems (amount m) (piles g ! nat (pileIndex m)))]\<rparr>)))"
proof (cases "calculateBestMove g")
  case (Pair r g0)
  with calculateBestMove_snd [of g] have "g0 = g" by simp
  with Pair show ?thesis
    by (simp add: makeAIMove_def finish_turn_def Let_def
        split: prod.splits sum.splits option.splits)
qed

lemma finish_turn_fields:
  "piles (finish_turn nxt g) = piles g"
  "initialConfig (finish_turn nxt g) = initialConfig g"
  "gameOver (finish_turn nxt g) \<longleftrightarrow> gameOver g \<or> totalItems (piles g) = 0"
  "winner (finish_turn nxt g)
     = (if totalItems (piles g) = 0 then Some (currentPlayer g) else winner g)"
  "currentPlayer (finish_turn nxt g)
     = (if gameOver g \<or> totalItems (piles g) = 0 then currentPlayer g else nxt)"
  by (simp_all add: finish_turn_def checkGameOver_def Let_def)

lemma inv_after_removal:
  assumes inv: "inv_game g" and run: "\<not> gameOver g" and k: "k < length (piles g)"
  shows "inv_game (finish_turn nxt
           (g\<lparr>piles := (piles g)[k := snd (removeItems amt (piles g ! k))]\<rparr>))"
proof -
  define ps' where "ps' = (piles g)[k := snd (removeItems amt (piles g ! k))]"
  have ne: "ps' \<noteq> []" using inv by (simp add: ps'_def inv_game_def)
  have ids: "ids_ok ps'" unfolding ps'_def
    using inv k by (intro ids_ok_update) (simp_all add: inv_game_def removeItems_id)
  have nn: "\<forall>p\<in>set ps'. 0 \<le> count p"
  proof
    fix p assume "p \<in> set ps'"
    then have "p \<in> insert (snd (removeItems amt (piles g ! k))) (set (piles g))"
      using set_update_subset_insert [of "piles g" k] by (auto simp: ps'_def)
    moreover have "0 \<le> count (piles g ! k)" using inv k by (simp add: inv_game_def)
    ultimately show "0 \<le> count p"
      using inv by (auto simp: inv_game_def removeItems_nonneg)
  qed
  have w: "winner g = None" using inv run by (simp add: inv_game_def)
  show ?thesis
    using ne ids nn w run inv
    by (simp add: inv_game_def finish_turn_fields flip: ps'_def)
qed

lemma userMove_inv:
  assumes "inv_game g"
  shows "inv_game (snd (userMove pIdx amt g))"
proof (cases "currentPlayer g = User \<and> \<not> gameOver g \<and> 0 \<le> pIdx
    \<and> pIdx < int (length (piles g))")
  case True
  then have "nat pIdx < length (piles g)" by linarith
  with assms True show ?thesis by (simp add: userMove_eq inv_after_removal)
next
  case False
  with assms show ?thesis by (auto simp: userMove_eq)
qed

lemma calculateBestMove_range:
  assumes "ids_ok (piles g)" "fst (calculateBestMove g) = Inr (Some m)"
  shows "0 \<le> pileIndex m \<and> pileIndex m < int (length (piles g))"
proof (cases "nimSum (piles g) = 0")
  case True
  with assms(2) obtain fp where fp: "find (\<lambda>p. 0 < count p) (piles g) = Some fp"
    and m: "m = \<lparr>pileIndex = id_p fp, amount = 1\<rparr>"
    by (auto simp: calculateBestMove_def split: option.splits)
  from fp obtain i where "i < length (piles g)" "fp = piles g ! i"
    unfolding find_Some_iff by blast
  with assms(1) m show ?thesis by (simp add: ids_ok_nth)
next
  case False
  with assms(2) have "scanPiles (piles g) (nimSum (piles g)) 0 = Some m"
    by (simp add: calculateBestMove_def)
  then show ?thesis by (rule scanPiles_range)
qed

lemma makeAIMove_inv:
  assumes "inv_game g"
  shows "inv_game (snd (makeAIMove g))"
proof (cases "fst (calculateBestMove g)")
  case (Inl e)
  with assms show ?thesis by (simp add: makeAIMove_eq)
next
  case (Inr r)
  show ?thesis
  proof (cases r)
    case None
    with Inr assms show ?thesis by (simp add: makeAIMove_eq)
  next
    case (Some m)
    have "ids_ok (piles g)" using assms by (simp add: inv_game_def)
    from calculateBestMove_range [OF this, of m] Inr Some
    have rng: "0 \<le> pileIndex m" "pileIndex m < int (length (piles g))" by simp_all
    then have "nat (pileIndex m) < length (piles g)" by linarith
    with assms Inr Some rng show ?thesis
      by (simp add: makeAIMove_eq inv_after_removal)
  qed
qed

lemma valid_sizes_inv:
  assumes "cs \<noteq> []" "\<forall>c\<in>set cs. 0 < c"
  shows "mkPiles cs \<noteq> []" "ids_ok (mkPiles cs)" "\<forall>p\<in>set (mkPiles cs). 0 \<le> count p"
    "totalItems (mkPiles cs) \<noteq> 0"
proof -
  show ne: "mkPiles cs \<noteq> []" using assms(1) length_mkPiles [of cs] by auto
  show "ids_ok (mkPiles cs)" by (rule ids_ok_mkPiles)
  have pos: "\<forall>p\<in>set (mkPiles cs). 0 < count p"
  proof
    fix p assume "p \<in> set (mkPiles cs)"
    then have "count p \<in> set (map count (mkPiles cs))" by simp
    then show "0 < count p" using assms(2) by (simp add: count_mkPiles)
  qed
  then show nn: "\<forall>p\<in>set (mkPiles cs). 0 \<le> count p" by auto
  from ne obtain p where "p \<in> set (mkPiles cs)" by (cases "mkPiles cs") auto
  with pos have "\<not> (\<forall>p\<in>set (mkPiles cs). count p = 0)" by force
  then show "totalItems (mkPiles cs) \<noteq> 0" using totalItems_zero_iff [OF nn] by simp
qed

lemma NimGame_inv: "valid_sizes pcs \<Longrightarrow> inv_game (NimGame pcs sp)"
proof (cases pcs)
  case None
  have "valid_sizes (Some [3, 4, 5])" by (simp add: valid_sizes_def)
  then show ?thesis using None valid_sizes_inv [of "[3, 4, 5]"]
    by (simp add: inv_game_def NimGame_def Let_def valid_sizes_def)
next
  case (Some cs)
  assume "valid_sizes pcs"
  with Some have "cs \<noteq> []" "\<forall>c\<in>set cs. 0 < c" by (simp_all add: valid_sizes_def)
  from valid_sizes_inv [OF this] this Some show ?thesis
    by (simp add: inv_game_def NimGame_def Let_def valid_sizes_def)
qed

lemma reset_inv:
  assumes "inv_game g" "valid_sizes pcs"
  shows "inv_game (reset pcs sp g)"
proof -
  define cs where "cs = (case pcs of None \<Rightarrow> pileCounts (initialConfig g) | Some cs \<Rightarrow> cs)"
  have "cs \<noteq> [] \<and> (\<forall>c\<in>set cs. 0 < c)"
    using assms by (cases pcs) (simp_all add: cs_def valid_sizes_def inv_game_def)
  then have c: "cs \<noteq> []" "\<forall>c\<in>set cs. 0 < c" by simp_all
  from valid_sizes_inv [OF c] c show ?thesis
    by (simp add: inv_game_def reset_def Let_def valid_sizes_def flip: cs_def)
qed

lemma reachable_inv: "reachable g \<Longrightarrow> inv_game g"
proof (induction rule: reachable.induct)
  case (r_new pcs sp)
  then show ?case by (rule NimGame_inv)
next
  case (r_user g pIdx amt)
  then show ?case by (simp add: userMove_inv)
next
  case (r_ai g)
  then show ?case by (simp add: makeAIMove_inv)
next
  case (r_best g)
  then show ?case by (simp add: calculateBestMove_snd)
next
  case (r_reset g pcs sp)
  then show ?case by (simp add: reset_inv)
qed

section \<open>The end of the game and the winner\<close>

lemma userMove_transition:
  assumes "inv_game g"
  shows "(gameOver g \<longrightarrow> userMove pIdx amt g = (Inr False, g))
    \<and> (\<not> gameOver g \<and> gameOver (snd (userMove pIdx amt g)) \<longrightarrow>
         fst (userMove pIdx amt g) = Inr True \<and> currentPlayer g = User
         \<and> winner g = None \<and> winner (snd (userMove pIdx amt g)) = Some User)
    \<and> (winner (snd (userMove pIdx amt g)) \<noteq> winner g \<longrightarrow>
         \<not> gameOver g \<and> gameOver (snd (userMove pIdx amt g)))"
proof -
  have w: "\<not> gameOver g \<longrightarrow> winner g = None" using assms by (simp add: inv_game_def)
  show ?thesis
    using w by (auto simp: userMove_eq finish_turn_fields split: if_splits)
qed

lemma makeAIMove_transition:
  assumes "inv_game g"
  shows "(gameOver g \<longrightarrow> makeAIMove g = (Inr None, g))
    \<and> (\<not> gameOver g \<and> gameOver (snd (makeAIMove g)) \<longrightarrow>
         (\<exists>m. fst (makeAIMove g) = Inr (Some m)) \<and> currentPlayer g = Computer
         \<and> winner g = None \<and> winner (snd (makeAIMove g)) = Some Computer)
    \<and> (winner (snd (makeAIMove g)) \<noteq> winner g \<longrightarrow>
         \<not> gameOver g \<and> gameOver (snd (makeAIMove g)))"
proof -
  have w: "\<not> gameOver g \<longrightarrow> winner g = None" using assms by (simp add: inv_game_def)
  show ?thesis
    using w
    by (auto simp: makeAIMove_eq finish_turn_fields split: if_splits sum.splits option.splits)
qed

text \<open>
  C2, for games reached from a construction or reset with a non-empty list of positive
  pile sizes. In every such game \<open>gameOver\<close> is true if and only if the sum of all pile
  counts is \<open>0\<close> (if and only if every pile is empty), and if and only if \<open>winner\<close> is
  set. Once the game is over, \<open>userMove\<close> and \<open>makeAIMove\<close> are rejected and change
  nothing. A move that takes the game from running to over is a successful move of the
  player whose turn it was, \<open>winner\<close> was null before it and is that player after it;
  and \<open>winner\<close> changes at no other move.
\<close>

theorem gameOver_iff_empty:
  assumes "reachable g"
  shows "(gameOver g \<longleftrightarrow> totalItems (piles g) = 0)
    \<and> (gameOver g \<longleftrightarrow> list_all (\<lambda>p. count p = 0) (piles g))
    \<and> (gameOver g \<longleftrightarrow> winner g \<noteq> None)
    \<and> (gameOver g \<longrightarrow> userMove pIdx amt g = (Inr False, g) \<and> makeAIMove g = (Inr None, g))
    \<and> (\<not> gameOver g \<and> gameOver (snd (userMove pIdx amt g)) \<longrightarrow>
         fst (userMove pIdx amt g) = Inr True \<and> currentPlayer g = User
         \<and> winner g = None \<and> winner (snd (userMove pIdx amt g)) = Some User)
    \<and> (\<not> gameOver g \<and> gameOver (snd (makeAIMove g)) \<longrightarrow>
         (\<exists>m. fst (makeAIMove g) = Inr (Some m)) \<and> currentPlayer g = Computer
         \<and> winner g = None \<and> winner (snd (makeAIMove g)) = Some Computer)
    \<and> (winner (snd (userMove pIdx amt g)) \<noteq> winner g \<longrightarrow>
         \<not> gameOver g \<and> gameOver (snd (userMove pIdx amt g)))
    \<and> (winner (snd (makeAIMove g)) \<noteq> winner g \<longrightarrow>
         \<not> gameOver g \<and> gameOver (snd (makeAIMove g)))"
proof -
  from assms have inv: "inv_game g" by (rule reachable_inv)
  then have nn: "\<forall>p\<in>set (piles g). 0 \<le> count p" by (simp add: inv_game_def)
  have a: "gameOver g \<longleftrightarrow> totalItems (piles g) = 0" using inv by (simp add: inv_game_def)
  have b: "gameOver g \<longleftrightarrow> list_all (\<lambda>p. count p = 0) (piles g)"
    using a totalItems_zero_iff [OF nn] by (simp add: list_all_iff)
  have c: "gameOver g \<longleftrightarrow> winner g \<noteq> None" using inv by (auto simp: inv_game_def)
  from a b c userMove_transition [OF inv, of pIdx amt] makeAIMove_transition [OF inv]
  show ?thesis by blast
qed

theorem gameOver_iff_empty_witness:
  "gameOver (NimGame (Some [5]) (Some User)) = False
   \<and> winner (NimGame (Some [5]) (Some User)) = None
   \<and> fst (userMove 0 5 (NimGame (Some [5]) (Some User))) = Inr True
   \<and> map count (piles (snd (userMove 0 5 (NimGame (Some [5]) (Some User))))) = [0]
   \<and> gameOver (snd (userMove 0 5 (NimGame (Some [5]) (Some User)))) = True
   \<and> winner (snd (userMove 0 5 (NimGame (Some [5]) (Some User)))) = Some User"
proof -
  define G where "G = NimGame (Some [5]) (Some User)"
  have r: "reachable G" unfolding G_def by (rule reachable.r_new) (simp add: valid_sizes_def)
  have e: "gameOver G = False" "fst (userMove 0 5 G) = Inr True"
    "map count (piles (snd (userMove 0 5 G))) = [0]"
    "gameOver (snd (userMove 0 5 G)) = True"
    by (simp_all add: G_def userMove_def NimGame_def mkPiles_def Pile_def removeItems_def js_sub_small
        checkGameOver_def totalItems_def js_add_small enumerate_eq_zip upt_rec Let_def)
  from gameOver_iff_empty [OF r, of 0 5] e
  have "winner G = None" "winner (snd (userMove 0 5 G)) = Some User" by simp_all
  with e show ?thesis unfolding G_def by simp
qed

text \<open>
  C2 as stated fails for the empty list of pile sizes, which the constructor accepts:
  the sum of the pile counts is \<open>0\<close> and \<open>gameOver\<close> is false.
\<close>

theorem gameOver_empty_config_counterexample:
  "piles (NimGame (Some []) (Some User)) = []
   \<and> totalItems (piles (NimGame (Some []) (Some User))) = 0
   \<and> gameOver (NimGame (Some []) (Some User)) = False"
  by (simp add: NimGame_def mkPiles_def totalItems_def)

section \<open>Faults\<close>

lemma some_pile_positive:
  assumes "inv_game g" "\<not> gameOver g"
  shows "\<exists>p\<in>set (piles g). 0 < count p"
proof -
  from assms have nn: "\<forall>p\<in>set (piles g). 0 \<le> count p" and t: "totalItems (piles g) \<noteq> 0"
    by (simp_all add: inv_game_def)
  from t totalItems_zero_iff [OF nn] obtain p where "p \<in> set (piles g)" "count p \<noteq> 0" by auto
  with nn have "0 < count p" by force
  with \<open>p \<in> set (piles g)\<close> show ?thesis by blast
qed

lemma calculateBestMove_no_fault:
  assumes "\<exists>p\<in>set (piles g). 0 < count p"
  shows "\<exists>r. fst (calculateBestMove g) = Inr r"
proof -
  from assms have "find (\<lambda>p. 0 < count p) (piles g) \<noteq> None" by (auto simp: find_None_iff)
  then show ?thesis by (auto simp: calculateBestMove_def Let_def split: option.splits)
qed

lemma makeAIMove_no_fault:
  assumes "inv_game g"
  shows "\<exists>r. fst (makeAIMove g) = Inr r"
proof (cases "currentPlayer g \<noteq> Computer \<or> gameOver g")
  case True
  then show ?thesis by (simp add: makeAIMove_eq)
next
  case False
  then have "\<not> gameOver g" by simp
  from some_pile_positive [OF assms this]
  obtain r where r: "fst (calculateBestMove g) = Inr r"
    using calculateBestMove_no_fault by blast
  show ?thesis
  proof (cases r)
    case None
    with r False show ?thesis by (simp add: makeAIMove_eq)
  next
    case (Some m)
    have "ids_ok (piles g)" using assms by (simp add: inv_game_def)
    from calculateBestMove_range [OF this, of m] r Some
    have "0 \<le> pileIndex m" "pileIndex m < int (length (piles g))" by simp_all
    with r Some False show ?thesis by (simp add: makeAIMove_eq)
  qed
qed

text \<open>
  C8, without the out-of-range index. In every game reached from a construction or
  reset with a non-empty list of positive pile sizes: \<open>userMove\<close> returns a boolean
  for every amount when \<open>pileIndex\<close> is the index of a pile, and returns false for
  every index and amount when it is not the user's turn or the game is over;
  \<open>makeAIMove\<close> returns a move or null; \<open>calculateBestMove\<close> returns a value while
  the game is not over. None of them raises a fault there.
\<close>

theorem engine_no_fault:
  assumes "reachable g"
  shows "(0 \<le> pIdx \<and> pIdx < int (length (piles g)) \<longrightarrow>
            (\<exists>b. fst (userMove pIdx amt g) = Inr b))
     \<and> (currentPlayer g \<noteq> User \<or> gameOver g \<longrightarrow> fst (userMove pIdx amt g) = Inr False)
     \<and> (\<exists>r. fst (makeAIMove g) = Inr r)
     \<and> (\<not> gameOver g \<longrightarrow> (\<exists>r. fst (calculateBestMove g) = Inr r))"
proof -
  from assms have inv: "inv_game g" by (rule reachable_inv)
  have a: "0 \<le> pIdx \<and> pIdx < int (length (piles g)) \<longrightarrow>
            (\<exists>b. fst (userMove pIdx amt g) = Inr b)"
    by (auto simp: userMove_eq)
  have b: "currentPlayer g \<noteq> User \<or> gameOver g \<longrightarrow> fst (userMove pIdx amt g) = Inr False"
    by (simp add: userMove_eq)
  have c: "\<exists>r. fst (makeAIMove g) = Inr r" using inv by (rule makeAIMove_no_fault)
  have d: "\<not> gameOver g \<longrightarrow> (\<exists>r. fst (calculateBestMove g) = Inr r)"
    using some_pile_positive [OF inv] calculateBestMove_no_fault by blast
  from a b c d show ?thesis by blast
qed

theorem engine_no_fault_witness:
  "fst (userMove 0 10 (NimGame (Some [3, 4, 5]) (Some User))) = Inr False
   \<and> fst (userMove 2 5 (NimGame (Some [3, 4, 5]) (Some User))) = Inr True
   \<and> fst (userMove 7 1 (NimGame (Some [3, 4, 5]) (Some Computer))) = Inr False
   \<and> (\<exists>r. fst (makeAIMove (NimGame (Some [3, 4, 5]) (Some User))) = Inr r)
   \<and> (\<exists>r. fst (calculateBestMove (NimGame (Some [3, 4, 5]) (Some User))) = Inr r)"
proof -
  define G where "G = NimGame (Some [3, 4, 5]) (Some User)"
  define H where "H = NimGame (Some [3, 4, 5]) (Some Computer)"
  have r: "reachable G" "reachable H"
    unfolding G_def H_def by (rule reachable.r_new, simp add: valid_sizes_def)+
  have e: "length (piles G) = 3" "\<not> gameOver G" "currentPlayer H \<noteq> User"
    by (simp_all add: G_def H_def NimGame_def mkPiles_def Let_def)
  have u: "fst (userMove 0 10 G) = Inr False" "fst (userMove 2 5 G) = Inr True"
    by (simp_all add: G_def userMove_def NimGame_def mkPiles_def Pile_def removeItems_def js_sub_small
        checkGameOver_def totalItems_def js_add_small enumerate_eq_zip upt_rec Let_def)
  from engine_no_fault [OF r(1), of 0 10] engine_no_fault [OF r(2), of 7 1] e u
  show ?thesis unfolding G_def H_def by simp
qed

text \<open>
  C8 as stated fails for an index outside the piles: on the user's turn
  \<open>userMove(3, 1)\<close> and \<open>userMove(-1, 1)\<close> on the piles \<open>[3, 4, 5]\<close> raise a TypeError.
\<close>

theorem userMove_index_counterexample:
  "length (piles (NimGame (Some [3, 4, 5]) (Some User))) = 3
   \<and> fst (userMove 3 1 (NimGame (Some [3, 4, 5]) (Some User))) = Inl TypeError
   \<and> fst (userMove (- 1) 1 (NimGame (Some [3, 4, 5]) (Some User))) = Inl TypeError"
  by (simp add: userMove_def NimGame_def mkPiles_def Let_def)

section \<open>Turn alternation\<close>

lemma scanPiles_Some:
  "scanPiles ps ns i = Some m \<Longrightarrow>
     \<exists>j<length ps. m = \<lparr>pileIndex = int j, amount = js_sub (count (ps ! j)) (js_xor (count (ps ! j)) ns)\<rparr>
        \<and> js_xor (count (ps ! j)) ns < count (ps ! j)"
proof (induction ps ns i rule: scanPiles.induct)
  case (1 ps ns i)
  show ?case
  proof (cases "i < length ps")
    case False
    with "1.prems" show ?thesis by (simp add: scanPiles.simps [of ps ns i])
  next
    case il: True
    show ?thesis
    proof (cases "js_xor (count (ps ! i)) ns < count (ps ! i)")
      case True
      with il "1.prems" have "m = \<lparr>pileIndex = int i,
          amount = js_sub (count (ps ! i)) (js_xor (count (ps ! i)) ns)\<rparr>"
        by (simp add: scanPiles.simps [of ps ns i])
      with il True show ?thesis by blast
    next
      case False
      with il "1.prems" have "scanPiles ps ns (i + 1) = Some m"
        by (simp add: scanPiles.simps [of ps ns i])
      with "1.IH" [OF il refl False] show ?thesis by simp
    qed
  qed
qed

lemma calculateBestMove_legal:
  assumes ids: "ids_ok (piles g)"
    and rng: "\<forall>p\<in>set (piles g). 0 \<le> count p \<and> count p < 2 ^ 31"
    and best: "fst (calculateBestMove g) = Inr (Some m)"
  shows "0 \<le> pileIndex m \<and> pileIndex m < int (length (piles g))
     \<and> 0 < amount m \<and> amount m \<le> count (piles g ! nat (pileIndex m))"
proof (cases "nimSum (piles g) = 0")
  case True
  with best obtain fp where fp: "find (\<lambda>p. 0 < count p) (piles g) = Some fp"
    and m: "m = \<lparr>pileIndex = id_p fp, amount = 1\<rparr>"
    by (auto simp: calculateBestMove_def split: option.splits)
  from fp obtain i where i: "i < length (piles g)" "fp = piles g ! i" "0 < count (piles g ! i)"
    unfolding find_Some_iff by blast
  with ids m show ?thesis by (simp add: ids_ok_nth)
next
  case False
  define ns where "ns = nimSum (piles g)"
  have nsx: "ns = xor_all (map count (piles g))" unfolding ns_def using rng by (rule nimSum_small)
  have ns0: "0 \<le> ns" unfolding nsx using rng by (intro xor_all_nonneg) auto
  have ns1: "ns < 2 ^ 31" unfolding nsx using rng by (intro xor_all_upper) auto
  from False best have "scanPiles (piles g) ns 0 = Some m"
    by (simp add: calculateBestMove_def ns_def)
  from scanPiles_Some [OF this] obtain j where j: "j < length (piles g)"
    "m = \<lparr>pileIndex = int j, amount = js_sub (count (piles g ! j)) (js_xor (count (piles g ! j)) ns)\<rparr>"
    "js_xor (count (piles g ! j)) ns < count (piles g ! j)" by blast
  from j(1) have "piles g ! j \<in> set (piles g)" by simp
  with rng have c: "0 \<le> count (piles g ! j)" "count (piles g ! j) < 2 ^ 31" by auto
  have "js_xor (count (piles g ! j)) ns = count (piles g ! j) XOR ns"
    using c ns0 ns1 by (intro js_xor_small)
  moreover have "0 \<le> count (piles g ! j) XOR ns" using c ns0 by simp
  ultimately show ?thesis using j c by (simp add: js_sub_31)
qed

lemma positive_iff_total:
  assumes "\<forall>p\<in>set ps. 0 \<le> count p"
  shows "(\<exists>p\<in>set ps. 0 < count p) \<longleftrightarrow> totalItems ps \<noteq> 0"
proof -
  have "(\<exists>p\<in>set ps. 0 < count p) \<longleftrightarrow> \<not> (\<forall>p\<in>set ps. count p = 0)"
    using assms by force
  then show ?thesis using totalItems_zero_iff [OF assms] by simp
qed

lemma update_nonneg:
  assumes "\<forall>p\<in>set ps. 0 \<le> count p" "k < length ps"
  shows "\<forall>p\<in>set (ps[k := snd (removeItems amt (ps ! k))]). 0 \<le> count p"
proof
  fix p assume "p \<in> set (ps[k := snd (removeItems amt (ps ! k))])"
  then have "p \<in> insert (snd (removeItems amt (ps ! k))) (set ps)"
    using set_update_subset_insert [of ps k] by auto
  moreover have "0 \<le> count (ps ! k)" using assms by simp
  ultimately show "0 \<le> count p" using assms(1) by (auto simp: removeItems_nonneg)
qed

text \<open>
  C5, with the pile counts below \<open>2 ^ 31\<close> for \<open>makeAIMove\<close>. When \<open>userMove\<close>
  succeeds (returns true) in a game whose pile counts are not negative, the amount has
  been removed from the target pile; if some pile count remains positive,
  \<open>currentPlayer\<close> is then the computer and the game is not over; if none remains
  positive, \<open>currentPlayer\<close> is still the user, the game is over and the user is the
  winner. When \<open>makeAIMove\<close> returns a move in a game whose piles are numbered by index
  and hold counts from \<open>0\<close> to \<open>2 ^ 31 - 1\<close>, the move has been applied to its pile, and
  the same holds with the players exchanged. In every game, when \<open>userMove\<close> does not
  return true, or \<open>makeAIMove\<close> returns no move, the game (so also \<open>currentPlayer\<close>) is
  unchanged.
\<close>

theorem turn_alternation:
  "((\<forall>p\<in>set (piles g). 0 \<le> count p) \<and> fst (userMove pIdx amt g) = Inr True \<longrightarrow>
            currentPlayer g = User
            \<and> 0 \<le> pIdx \<and> pIdx < int (length (piles g))
            \<and> 0 < amt \<and> amt \<le> count (piles g ! nat pIdx)
            \<and> piles (snd (userMove pIdx amt g))
                = (piles g)[nat pIdx := snd (removeItems amt (piles g ! nat pIdx))]
            \<and> (if \<exists>p\<in>set (piles (snd (userMove pIdx amt g))). 0 < count p
               then currentPlayer (snd (userMove pIdx amt g)) = Computer
                    \<and> \<not> gameOver (snd (userMove pIdx amt g))
               else currentPlayer (snd (userMove pIdx amt g)) = User
                    \<and> gameOver (snd (userMove pIdx amt g))
                    \<and> winner (snd (userMove pIdx amt g)) = Some User))
     \<and> (fst (userMove pIdx amt g) \<noteq> Inr True \<longrightarrow> snd (userMove pIdx amt g) = g)
     \<and> (ids_ok (piles g) \<and> (\<forall>p\<in>set (piles g). 0 \<le> count p \<and> count p < 2 ^ 31)
          \<and> fst (makeAIMove g) = Inr (Some m) \<longrightarrow>
            currentPlayer g = Computer
            \<and> 0 \<le> pileIndex m \<and> pileIndex m < int (length (piles g))
            \<and> 0 < amount m \<and> amount m \<le> count (piles g ! nat (pileIndex m))
            \<and> piles (snd (makeAIMove g))
                = (piles g)[nat (pileIndex m) := (piles g ! nat (pileIndex m))
                     \<lparr>count := count (piles g ! nat (pileIndex m)) - amount m\<rparr>]
            \<and> (if \<exists>p\<in>set (piles (snd (makeAIMove g))). 0 < count p
               then currentPlayer (snd (makeAIMove g)) = User
                    \<and> \<not> gameOver (snd (makeAIMove g))
               else currentPlayer (snd (makeAIMove g)) = Computer
                    \<and> gameOver (snd (makeAIMove g))
                    \<and> winner (snd (makeAIMove g)) = Some Computer))
     \<and> ((\<forall>m'. fst (makeAIMove g) \<noteq> Inr (Some m')) \<longrightarrow> snd (makeAIMove g) = g)"
    (is "(_ \<longrightarrow> ?user_done) \<and> ?user_failed \<and> (_ \<longrightarrow> ?ai_done) \<and> ?ai_failed")
proof -
  have u1: ?user_done
    if nn: "\<forall>p\<in>set (piles g). 0 \<le> count p" and ok: "fst (userMove pIdx amt g) = Inr True"
  proof -
    from ok have c: "currentPlayer g = User" "\<not> gameOver g" "0 \<le> pIdx"
      "pIdx < int (length (piles g))" "0 < amt" "amt \<le> count (piles g ! nat pIdx)"
      by (auto simp: userMove_eq split: if_splits)
    define ps' where "ps' = (piles g)[nat pIdx := snd (removeItems amt (piles g ! nat pIdx))]"
    have k: "nat pIdx < length (piles g)" using c by linarith
    have nn': "\<forall>p\<in>set ps'. 0 \<le> count p" unfolding ps'_def using nn k by (rule update_nonneg)
    have g': "snd (userMove pIdx amt g) = finish_turn Computer (g\<lparr>piles := ps'\<rparr>)"
      using c by (simp add: userMove_eq ps'_def)
    show ?thesis
      unfolding g' using c positive_iff_total [OF nn']
      by (simp add: finish_turn_fields ps'_def)
  qed
  have u2: ?user_failed
    by (auto simp: userMove_eq)
  have a1: ?ai_done
    if ids: "ids_ok (piles g)"
      and rng: "\<forall>p\<in>set (piles g). 0 \<le> count p \<and> count p < 2 ^ 31"
      and ok: "fst (makeAIMove g) = Inr (Some m)"
  proof -
    have nn: "\<forall>p\<in>set (piles g). 0 \<le> count p" using rng by simp
    from ok have c: "currentPlayer g = Computer" "\<not> gameOver g"
      by (auto simp: makeAIMove_eq split: if_splits)
    with ok have best: "fst (calculateBestMove g) = Inr (Some m)"
      by (auto simp: makeAIMove_eq split: if_splits sum.splits option.splits)
    from calculateBestMove_legal [OF ids rng best]
    have l: "0 \<le> pileIndex m" "pileIndex m < int (length (piles g))"
      "0 < amount m" "amount m \<le> count (piles g ! nat (pileIndex m))" by simp_all
    define k where "k = nat (pileIndex m)"
    define ps' where "ps' = (piles g)[k := snd (removeItems (amount m) (piles g ! k))]"
    have k: "k < length (piles g)" unfolding k_def using l by linarith
    then have "piles g ! k \<in> set (piles g)" by simp
    with rng have ck: "count (piles g ! k) < 2 ^ 31" by simp
    have nn': "\<forall>p\<in>set ps'. 0 \<le> count p" unfolding ps'_def using nn k by (rule update_nonneg)
    have g': "snd (makeAIMove g) = finish_turn User (g\<lparr>piles := ps'\<rparr>)"
      using c l best by (simp add: makeAIMove_eq ps'_def k_def)
    have "js_sub (count (piles g ! k)) (amount m) = count (piles g ! k) - amount m"
      using l ck by (intro js_sub_31) (simp_all add: k_def)
    then have r: "snd (removeItems (amount m) (piles g ! k))
        = (piles g ! k)\<lparr>count := count (piles g ! k) - amount m\<rparr>"
      using l by (simp add: removeItems_def k_def)
    show ?thesis
      unfolding g' using c l positive_iff_total [OF nn'] r
      by (simp add: finish_turn_fields ps'_def flip: k_def)
  qed
  have a2: ?ai_failed
    by (auto simp: makeAIMove_eq split: sum.splits option.splits)
  from u1 u2 a1 a2 show ?thesis by blast
qed

theorem turn_alternation_witness:
  "fst (userMove 0 2 (NimGame (Some [3, 4, 5]) (Some User))) = Inr True
   \<and> currentPlayer (snd (userMove 0 2 (NimGame (Some [3, 4, 5]) (Some User)))) = Computer
   \<and> fst (userMove 0 10 (NimGame (Some [3, 4, 5]) (Some User))) = Inr False
   \<and> currentPlayer (snd (userMove 0 10 (NimGame (Some [3, 4, 5]) (Some User)))) = User
   \<and> fst (makeAIMove (NimGame (Some [3, 4, 5]) (Some Computer)))
       = Inr (Some \<lparr>pileIndex = 0, amount = 2\<rparr>)
   \<and> map count (piles (snd (makeAIMove (NimGame (Some [3, 4, 5]) (Some Computer))))) = [1, 4, 5]
   \<and> currentPlayer (snd (makeAIMove (NimGame (Some [3, 4, 5]) (Some Computer)))) = User
   \<and> fst (userMove 0 1 (NimGame (Some [1]) (Some User))) = Inr True
   \<and> currentPlayer (snd (userMove 0 1 (NimGame (Some [1]) (Some User)))) = User
   \<and> winner (snd (userMove 0 1 (NimGame (Some [1]) (Some User)))) = Some User"
proof -
  define G where "G = NimGame (Some [3, 4, 5]) (Some User)"
  define H where "H = NimGame (Some [3, 4, 5]) (Some Computer)"
  define K where "K = NimGame (Some [1]) (Some User)"
  have ps: "piles G = [Pile 3 0, Pile 4 1, Pile 5 2]" "piles H = [Pile 3 0, Pile 4 1, Pile 5 2]"
    "piles K = [Pile 1 0]" "currentPlayer G = User"
    by (simp_all add: G_def H_def K_def NimGame_def mkPiles_def enumerate_eq_zip upt_rec)
  have ids: "ids_ok (piles H)"
    by (simp add: ps ids_ok_def Pile_def upt_rec)
  have rng: "\<forall>p\<in>set (piles H). 0 \<le> count p \<and> count p < 2 ^ 31"
    by (simp add: ps Pile_def)
  have nn: "\<forall>p\<in>set (piles G). 0 \<le> count p" "\<forall>p\<in>set (piles K). 0 \<le> count p"
    by (simp_all add: ps Pile_def)
  have u: "fst (userMove 0 2 G) = Inr True" "fst (userMove 0 10 G) = Inr False"
    "fst (userMove 0 1 K) = Inr True"
    by (simp_all add: G_def K_def userMove_def NimGame_def mkPiles_def Pile_def removeItems_def
        enumerate_eq_zip upt_rec Let_def)
  have a: "fst (makeAIMove H) = Inr (Some \<lparr>pileIndex = 0, amount = 2\<rparr>)"
    by (simp add: H_def makeAIMove_def calculateBestMove_def NimGame_def mkPiles_def Pile_def
        nimSum_def js_xor_def removeItems_def scanPiles.simps js_sub_small enumerate_eq_zip
        upt_rec Let_def)
  from turn_alternation [of G 0 2] nn(1) u(1)
  have 1: "currentPlayer (snd (userMove 0 2 G)) = Computer"
    by (simp add: ps Pile_def removeItems_def js_sub_small split: if_splits)
  from turn_alternation [of G 0 10] u(2) ps(4)
  have 2: "currentPlayer (snd (userMove 0 10 G)) = User" by simp
  from turn_alternation [of H _ _ "\<lparr>pileIndex = 0, amount = 2\<rparr>"] ids rng a
  have 3: "map count (piles (snd (makeAIMove H))) = [1, 4, 5]"
    "currentPlayer (snd (makeAIMove H)) = User"
    by (simp_all add: ps Pile_def split: if_splits)
  from turn_alternation [of K 0 1] nn(2) u(3)
  have 4: "currentPlayer (snd (userMove 0 1 K)) = User" "winner (snd (userMove 0 1 K)) = Some User"
    by (simp_all add: ps Pile_def removeItems_def js_sub_small split: if_splits)
  from u a 1 2 3 4 show ?thesis unfolding G_def H_def K_def by simp
qed

text \<open>
  C5 as stated fails for a pile of \<open>2 ^ 31\<close> items: on the piles \<open>[1, 2147483648]\<close>
  with the computer to move, the move that \<open>makeAIMove\<close> tries is refused by
  \<open>removeItems\<close>, no pile changes, and \<open>currentPlayer\<close> becomes the user all the same.
\<close>

theorem makeAIMove_large_counterexample:
  "currentPlayer (NimGame (Some [1, 2147483648]) (Some Computer)) = Computer
   \<and> fst (makeAIMove (NimGame (Some [1, 2147483648]) (Some Computer)))
       = Inr (Some \<lparr>pileIndex = 0, amount = 2147483649\<rparr>)
   \<and> fst (removeItems 2147483649 (piles (NimGame (Some [1, 2147483648]) (Some Computer)) ! 0))
       = False
   \<and> piles (snd (makeAIMove (NimGame (Some [1, 2147483648]) (Some Computer))))
       = piles (NimGame (Some [1, 2147483648]) (Some Computer))
   \<and> currentPlayer (snd (makeAIMove (NimGame (Some [1, 2147483648]) (Some Computer)))) = User"
  by (simp add: makeAIMove_def calculateBestMove_def NimGame_def mkPiles_def Pile_def nimSum_def
      js_xor_def removeItems_def js_sub_small checkGameOver_def totalItems_def js_add_small scanPiles.simps
      enumerate_eq_zip upt_rec Let_def)

end
